theory Spec2Isabelle
  imports Complex_Main "HOL-Library.Multiset"
begin

section \<open>Numbers\<close>

text \<open>
  A JavaScript Number is read as the real number it denotes: \<open>+\<close>, \<open>-\<close>, \<open>*\<close>, \<open>/\<close>,
  \<open>Math.sqrt\<close>, \<open>Math.sin\<close>, \<open>Math.cos\<close> and the other library functions compute their
  exact real result (no rounding, no overflow, no signed zero), and comparisons are the
  real order.  A decimal literal denotes its decimal value (\<open>0.8\<close> is \<open>8 / 10\<close>, \<open>1e-8\<close> is
  \<open>1 / 10 ^ 8\<close>).  \<open>Math.PI\<close> denotes the value it has in the program, a rational number
  below \<open>pi\<close>: the program adds, subtracts and compares multiples of it.

  In HOL \<open>x / 0 = 0\<close>, where IEEE arithmetic gives \<open>Infinity\<close> or \<open>NaN\<close>.  The division
  \<open>MU / rMag\<close> of \<open>computeOrbitFromStateVectors\<close> is treated where it occurs, and the fields
  of a body can hold the \<open>NaN\<close> that comes of it.  The other
  divisors of the embedded code are not zero for elements with \<open>a > 0\<close> and
  \<open>0 \<le> e < 1\<close> and for \<open>numPoints \<ge> 1\<close>; outside of these the values of the orbit
  functions below are HOL's, not the program's.
\<close>

section \<open>Constants: \<open>constants.js\<close>\<close>

definition MU :: real where
  "MU = 1000"

definition AU_TO_PIXELS :: real where
  "AU_TO_PIXELS = 150"

definition BELT_INNER_RADIUS :: real where
  "BELT_INNER_RADIUS = 2"

definition BELT_OUTER_RADIUS :: real where
  "BELT_OUTER_RADIUS = 35 / 10"

definition MIN_ASTEROID_RADIUS :: real where
  "MIN_ASTEROID_RADIUS = 2"

definition MAX_ASTEROID_RADIUS :: real where
  "MAX_ASTEROID_RADIUS = 20"

definition MIN_ECCENTRICITY :: real where
  "MIN_ECCENTRICITY = 0"

definition MAX_ECCENTRICITY :: real where
  "MAX_ECCENTRICITY = 3 / 10"

definition ORBIT_PATH_POINTS :: nat where
  "ORBIT_PATH_POINTS = 100"

definition KEPLER_MAX_ITERATIONS :: nat where
  "KEPLER_MAX_ITERATIONS = 50"

definition KEPLER_TOLERANCE :: real where
  "KEPLER_TOLERANCE = 1 / 100000000"

text \<open>
  \<open>Math.PI\<close> is the Number nearest to the ratio of a circle's circumference to its
  diameter: the double \<open>0x400921FB54442D18\<close>, that is \<open>884279719003555 / 2^48\<close>
  (\<open>3.141592653589793115997963...\<close>).  It is a rational number, a little below the real
  number \<open>pi\<close>.
\<close>

definition Math_PI :: real where
  "Math_PI = 884279719003555 / 281474976710656"

section \<open>Math utilities: \<open>utils.js\<close>\<close>

text \<open>
  \<open>Math.atan2(y, x)\<close>: the angle in \<open>(-pi, pi]\<close> of the point \<open>(x, y)\<close>, and \<open>0\<close> at
  the origin.  Signed zeros are not distinguished.
\<close>

definition Math_atan2 :: "real \<Rightarrow> real \<Rightarrow> real" where
  "Math_atan2 y x =
     (if 0 < x then arctan (y / x)
      else if x < 0 then (if 0 \<le> y then arctan (y / x) + pi else arctan (y / x) - pi)
      else if 0 < y then pi / 2
      else if y < 0 then - (pi / 2)
      else 0)"

text \<open>
  \<open>normalizeAngle\<close> is two \<open>while\<close> loops, one after the other.  Each of them ends
  on every real number, since every turn moves the angle by the positive constant
  \<open>2 * Math.PI\<close>.  The program rounds each sum: on an angle so large that the sum
  rounds back to the angle its loop does not end, which is why the theorems on a
  propagated orbit bound the angle.
\<close>

function normalizeAngle_up :: "real \<Rightarrow> real" where
  "normalizeAngle_up angle =
     (if angle < 0 then normalizeAngle_up (angle + 2 * Math_PI) else angle)"
  by pat_completeness auto
termination
proof (relation "measure (\<lambda>angle. nat \<lceil>- angle / (2 * Math_PI)\<rceil>)")
  show "wf (measure (\<lambda>angle. nat \<lceil>- angle / (2 * Math_PI)\<rceil>))" by simp
next
  fix angle :: real
  assume neg: "angle < 0"
  have p: "0 < 2 * Math_PI" by (simp add: Math_PI_def)
  have eq: "- (angle + 2 * Math_PI) / (2 * Math_PI) = - angle / (2 * Math_PI) - 1"
    using p by (simp add: field_simps)
  have c: "\<lceil>- (angle + 2 * Math_PI) / (2 * Math_PI)\<rceil> = \<lceil>- angle / (2 * Math_PI)\<rceil> - 1"
    unfolding eq by simp
  have "0 < - angle / (2 * Math_PI)" using neg p by (intro divide_pos_pos) auto
  then have pos: "0 < \<lceil>- angle / (2 * Math_PI)\<rceil>" by simp
  show "(angle + 2 * Math_PI, angle) \<in> measure (\<lambda>angle. nat \<lceil>- angle / (2 * Math_PI)\<rceil>)"
    unfolding in_measure c using pos by linarith
qed

function normalizeAngle_down :: "real \<Rightarrow> real" where
  "normalizeAngle_down angle =
     (if angle \<ge> 2 * Math_PI then normalizeAngle_down (angle - 2 * Math_PI) else angle)"
  by pat_completeness auto
termination
proof (relation "measure (\<lambda>angle. nat \<lfloor>angle / (2 * Math_PI)\<rfloor>)")
  show "wf (measure (\<lambda>angle. nat \<lfloor>angle / (2 * Math_PI)\<rfloor>))" by simp
next
  fix angle :: real
  assume big: "2 * Math_PI \<le> angle"
  have p: "0 < 2 * Math_PI" by (simp add: Math_PI_def)
  have eq: "(angle - 2 * Math_PI) / (2 * Math_PI) = angle / (2 * Math_PI) - 1"
    using p by (simp add: field_simps)
  have c: "\<lfloor>(angle - 2 * Math_PI) / (2 * Math_PI)\<rfloor> = \<lfloor>angle / (2 * Math_PI)\<rfloor> - 1"
    unfolding eq by simp
  have "1 \<le> angle / (2 * Math_PI)" using big p by (simp add: pos_le_divide_eq)
  then have pos: "1 \<le> \<lfloor>angle / (2 * Math_PI)\<rfloor>" by simp
  show "(angle - 2 * Math_PI, angle) \<in> measure (\<lambda>angle. nat \<lfloor>angle / (2 * Math_PI)\<rfloor>)"
    unfolding in_measure c using pos by linarith
qed

definition normalizeAngle :: "real \<Rightarrow> real" where
  "normalizeAngle angle = normalizeAngle_down (normalizeAngle_up angle)"

definition magnitude :: "real \<Rightarrow> real \<Rightarrow> real" where
  "magnitude x y = sqrt (x * x + y * y)"

definition dot :: "real \<Rightarrow> real \<Rightarrow> real \<Rightarrow> real \<Rightarrow> real" where
  "dot x1 y1 x2 y2 = x1 * x2 + y1 * y2"

definition cross :: "real \<Rightarrow> real \<Rightarrow> real \<Rightarrow> real \<Rightarrow> real" where
  "cross x1 y1 x2 y2 = x1 * y2 - y1 * x2"

text \<open>\<open>randomRange\<close> and \<open>randomPowerLaw\<close>; \<open>u\<close> is the value of \<open>Math.random()\<close>.\<close>

definition randomRange :: "real \<Rightarrow> real \<Rightarrow> real \<Rightarrow> real" where
  "randomRange lo hi u = lo + u * (hi - lo)"

definition randomPowerLaw :: "real \<Rightarrow> real \<Rightarrow> nat \<Rightarrow> real \<Rightarrow> real" where
  "randomPowerLaw lo hi pw u = lo + (hi - lo) * u ^ pw"

section \<open>Orbit solver: \<open>orbital.js\<close>\<close>

text \<open>The orbital elements \<open>{ a, e, omega, M0 }\<close>, a position \<open>{ x, y }\<close> and a
  velocity \<open>{ vx, vy }\<close>.\<close>

record orbital_elements =
  orb_a :: real
  orb_e :: real
  orb_omega :: real
  orb_M0 :: real

record position =
  pos_x :: real
  pos_y :: real

record velocity =
  vel_vx :: real
  vel_vy :: real

text \<open>
  The Newton-Raphson loop of \<open>solveKeplerEquation\<close>: \<open>i\<close> is the loop counter and \<open>E\<close>
  the current iterate.  The divisor \<open>fPrime\<close> is positive whenever \<open>0 \<le> e < 1\<close>.
\<close>

function kepler_loop :: "nat \<Rightarrow> real \<Rightarrow> real \<Rightarrow> real \<Rightarrow> real" where
  "kepler_loop i E M e =
     (if i < KEPLER_MAX_ITERATIONS then
        (let sinE = sin E;
             cosE = cos E;
             f = E - e * sinE - M;
             fPrime = 1 - e * cosE;
             deltaE = f / fPrime;
             E' = E - deltaE
         in if \<bar>deltaE\<bar> < KEPLER_TOLERANCE then E' else kepler_loop (i + 1) E' M e)
      else E)"
  by pat_completeness auto
termination
  by (relation "measure (\<lambda>(i, E, M, e). KEPLER_MAX_ITERATIONS - i)") auto

definition solveKeplerEquation :: "real \<Rightarrow> real \<Rightarrow> real" where
  "solveKeplerEquation M e =
     (let M' = normalizeAngle M;
          E = (if e > 8 / 10 then Math_PI else M')
      in kepler_loop 0 E M' e)"

definition trueAnomalyFromEccentric :: "real \<Rightarrow> real \<Rightarrow> real" where
  "trueAnomalyFromEccentric E e =
     (let sinHalfE = sin (E / 2);
          cosHalfE = cos (E / 2);
          sqrtOnePlusE = sqrt (1 + e);
          sqrtOneMinusE = sqrt (1 - e)
      in 2 * Math_atan2 (sqrtOnePlusE * sinHalfE) (sqrtOneMinusE * cosHalfE))"

definition meanAnomalyAtTime :: "orbital_elements \<Rightarrow> real \<Rightarrow> real" where
  "meanAnomalyAtTime orbit t =
     (let n = sqrt (MU / (orb_a orbit) ^ 3)
      in normalizeAngle (orb_M0 orbit + n * t))"

definition orbitalPeriod :: "real \<Rightarrow> real" where
  "orbitalPeriod a = 2 * Math_PI * sqrt (a ^ 3 / MU)"

definition getPositionFromTrueAnomaly :: "orbital_elements \<Rightarrow> real \<Rightarrow> position" where
  "getPositionFromTrueAnomaly orbit theta =
     (let a = orb_a orbit; e = orb_e orbit; omega = orb_omega orbit;
          r = a * (1 - e * e) / (1 + e * cos theta);
          xOrbital = r * cos theta;
          yOrbital = r * sin theta;
          cosOmega = cos omega;
          sinOmega = sin omega
      in \<lparr>pos_x = xOrbital * cosOmega - yOrbital * sinOmega,
          pos_y = xOrbital * sinOmega + yOrbital * cosOmega\<rparr>)"

definition getPositionAtTime :: "orbital_elements \<Rightarrow> real \<Rightarrow> position" where
  "getPositionAtTime orbit t =
     (let M = meanAnomalyAtTime orbit t;
          E = solveKeplerEquation M (orb_e orbit);
          theta = trueAnomalyFromEccentric E (orb_e orbit)
      in getPositionFromTrueAnomaly orbit theta)"

definition getVelocityAtTime :: "orbital_elements \<Rightarrow> real \<Rightarrow> velocity" where
  "getVelocityAtTime orbit t =
     (let a = orb_a orbit; e = orb_e orbit; omega = orb_omega orbit;
          M = meanAnomalyAtTime orbit t;
          E = solveKeplerEquation M (orb_e orbit);
          theta = trueAnomalyFromEccentric E (orb_e orbit);
          r = a * (1 - e * e) / (1 + e * cos theta);
          vMag = sqrt (MU * (2 / r - 1 / a));
          p = a * (1 - e * e);
          h = sqrt (MU * p);
          vr = MU / h * e * sin theta;
          vTheta = MU / h * (1 + e * cos theta);
          vxOrbital = vr * cos theta - vTheta * sin theta;
          vyOrbital = vr * sin theta + vTheta * cos theta;
          cosOmega = cos omega;
          sinOmega = sin omega
      in \<lparr>vel_vx = vxOrbital * cosOmega - vyOrbital * sinOmega,
          vel_vy = vxOrbital * sinOmega + vyOrbital * cosOmega\<rparr>)"

text \<open>
  The result of \<open>computeOrbitFromStateVectors\<close>: \<open>null\<close>, or an elements object.
  \<open>NonFiniteElements\<close> is the object \<open>{ a: 0, e: NaN, omega: NaN, M0: NaN }\<close> that the
  function returns for a position of magnitude zero: there \<open>MU / rMag\<close> is \<open>Infinity\<close>,
  \<open>energy\<close> is \<open>-Infinity\<close>, the test \<open>energy >= 0\<close> is false, \<open>-MU / (2 * energy)\<close> is
  \<open>0\<close>, and \<open>term1 * rx\<close> is \<open>-Infinity * 0\<close>, which is \<open>NaN\<close>.  It is not \<open>null\<close>.

  \<open>Math.acos\<close> is \<open>arccos\<close> and \<open>Math.tan\<close> is \<open>tan\<close>.  Where \<open>cos (theta / 2) = 0\<close> the real
  tangent has a pole (and HOL's \<open>tan\<close> is \<open>0\<close>).  The program's \<open>theta / 2\<close> is then the double
  next to \<open>pi / 2\<close> or \<open>-pi / 2\<close>, \<open>Math.tan\<close> of it is about \<open>1.6e16\<close> in size with the sign of
  \<open>sin (theta / 2)\<close>, and \<open>2 * Math.atan\<close> of its product with a positive \<open>sqrtRatio\<close> is \<open>pi\<close>
  or \<open>-pi\<close> to within rounding; with \<open>sqrtRatio = 0\<close> the product is \<open>0\<close>.  The model takes
  these values for \<open>E\<close> there.
\<close>

datatype orbit_result = NoOrbit | Elements orbital_elements | NonFiniteElements

definition computeOrbitFromStateVectors :: "position \<Rightarrow> velocity \<Rightarrow> orbit_result" where
  "computeOrbitFromStateVectors r v =
     (let rx = pos_x r; ry = pos_y r; vx = vel_vx v; vy = vel_vy v;
          rMag = magnitude rx ry;
          vMag = magnitude vx vy;
          h = cross rx ry vx vy
      in if rMag = 0 then NonFiniteElements
         else
          (let energy = vMag * vMag / 2 - MU / rMag
           in if energy \<ge> 0 then NoOrbit
              else
               (let a = - MU / (2 * energy);
                    rdotv = dot rx ry vx vy;
                    term1 = vMag * vMag - MU / rMag;
                    ex = (term1 * rx - rdotv * vx) / MU;
                    ey = (term1 * ry - rdotv * vy) / MU;
                    e = magnitude ex ey;
                    omega0 = Math_atan2 ey ex;
                    omega = (if omega0 < 0 then omega0 + 2 * Math_PI else omega0);
                    theta =
                      (if e < 1 / 10000000000 then Math_atan2 ry rx - omega
                       else
                        (let cosTheta = dot ex ey rx ry / (e * rMag);
                             theta0 = arccos (max (- 1) (min 1 cosTheta))
                         in if rdotv < 0 then 2 * Math_PI - theta0 else theta0));
                    tanHalfTheta = tan (theta / 2);
                    sqrtRatio = sqrt ((1 - e) / (1 + e));
                    E = (if cos (theta / 2) = 0
                         then (if sqrtRatio = 0 then 0
                               else if 0 < sin (theta / 2) then pi else - pi)
                         else 2 * arctan (sqrtRatio * tanHalfTheta));
                    M = E - e * sin E;
                    M0 = normalizeAngle M
                in Elements \<lparr>orb_a = a, orb_e = e, orb_omega = omega, orb_M0 = M0\<rparr>)))"

text \<open>
  \<open>generateOrbitPath\<close>: the loop \<open>for (let i = 0; i <= numPoints; i++)\<close> pushes one
  point for each \<open>i\<close> from \<open>0\<close> to \<open>numPoints\<close>.
\<close>

definition generateOrbitPath :: "orbital_elements \<Rightarrow> nat \<Rightarrow> position list" where
  "generateOrbitPath orbit numPoints =
     map (\<lambda>i. let theta = (real i / real numPoints) * 2 * Math_PI
              in getPositionFromTrueAnomaly orbit theta)
         [0 ..< Suc numPoints]"

section \<open>Body: \<open>asteroid.js\<close>\<close>

text \<open>
  The fields of an asteroid can hold \<open>NaN\<close>: \<open>applyDeltaV\<close> on a body at the origin stores
  the object \<open>{ a: 0, e: NaN, omega: NaN, M0: NaN }\<close> that \<open>computeOrbitFromStateVectors\<close>
  returns there.  A \<open>number\<close> is a real or \<open>NaN\<close>.  An \<open>orbit_value\<close> is what \<open>this.orbit\<close>
  can hold: an elements object of real numbers, or \<open>NaNOrbit a\<close>, the object
  \<open>{ a: a, e: NaN, omega: NaN, M0: NaN }\<close>.  A point of a path is a position or, as \<open>None\<close>,
  the object \<open>{ x: NaN, y: NaN }\<close>.
\<close>

datatype number = Num real | NaN

datatype orbit_value = Orbit orbital_elements | NaNOrbit number

text \<open>\<open>this.vx + dvx\<close>, for a real \<open>dvx\<close>.\<close>

definition plus_number :: "number \<Rightarrow> real \<Rightarrow> number" where
  "plus_number n d = (case n of Num x \<Rightarrow> Num (x + d) | NaN \<Rightarrow> NaN)"

text \<open>The property \<open>orbit.a\<close>.\<close>

definition orbit_a :: "orbit_value \<Rightarrow> number" where
  "orbit_a orbit = (case orbit of Orbit el \<Rightarrow> Num (orb_a el) | NaNOrbit a \<Rightarrow> a)"

text \<open>
  The functions of \<open>orbital.js\<close> on these values.  With \<open>NaN\<close> in \<open>e\<close> and \<open>omega\<close> every
  sample of \<open>generateOrbitPath\<close> is \<open>{ x: NaN, y: NaN }\<close>, since every operation on \<open>NaN\<close>
  gives \<open>NaN\<close>.  \<open>orbitalPeriod(NaN)\<close> is \<open>NaN\<close>, and \<open>orbitalPeriod(0)\<close> is \<open>0\<close> in the program
  and in \<open>orbitalPeriod\<close> above.  With \<open>NaN\<close> in \<open>M0\<close> the mean anomaly is \<open>NaN\<close>, on which the
  loops of \<open>normalizeAngle\<close> do not run and the loop of \<open>solveKeplerEquation\<close> runs its 50
  iterations, and the position and the velocity are \<open>NaN\<close>.
\<close>

definition generateOrbitPath_value :: "orbit_value \<Rightarrow> nat \<Rightarrow> position option list" where
  "generateOrbitPath_value orbit numPoints =
     (case orbit of
        Orbit el \<Rightarrow> map Some (generateOrbitPath el numPoints)
      | NaNOrbit a \<Rightarrow> replicate (Suc numPoints) None)"

definition orbitalPeriod_value :: "number \<Rightarrow> number" where
  "orbitalPeriod_value a = (case a of Num x \<Rightarrow> Num (orbitalPeriod x) | NaN \<Rightarrow> NaN)"

text \<open>
  \<open>computeOrbitFromStateVectors\<close> on a position and a velocity that can hold \<open>NaN\<close>: the
  result is \<open>None\<close> for \<open>null\<close>.  With a \<open>NaN\<close> among the four numbers \<open>energy\<close> is \<open>NaN\<close>, the
  test \<open>energy >= 0\<close> is false, and every field of the object returned is \<open>NaN\<close>.
\<close>

definition computeOrbit_value ::
  "number \<Rightarrow> number \<Rightarrow> number \<Rightarrow> number \<Rightarrow> orbit_value option" where
  "computeOrbit_value x y vx vy =
     (case (x, y, vx, vy) of
        (Num rx, Num ry, Num rvx, Num rvy) \<Rightarrow>
          (case computeOrbitFromStateVectors \<lparr>pos_x = rx, pos_y = ry\<rparr>
                  \<lparr>vel_vx = rvx, vel_vy = rvy\<rparr> of
             NoOrbit \<Rightarrow> None
           | Elements el \<Rightarrow> Some (Orbit el)
           | NonFiniteElements \<Rightarrow> Some (NaNOrbit (Num 0)))
      | _ \<Rightarrow> Some (NaNOrbit NaN))"

text \<open>The fields of an \<open>Asteroid\<close>.\<close>

record asteroid =
  ast_id :: nat
  ast_orbit :: orbit_value
  ast_radius :: real
  ast_color :: string
  ast_orbitPath :: "position option list"
  ast_x :: number
  ast_y :: number
  ast_vx :: number
  ast_vy :: number
  ast_period :: number

text \<open>
  The constructor.  \<open>u1\<close> to \<open>u5\<close> are the five values of \<open>Math.random()\<close> that it
  draws, in order, \<open>ident\<close> is the argument \<open>id\<close>, and \<open>color\<close> is the string that
  \<open>generateAsteroidColor(id)\<close> returns.
\<close>

definition new_Asteroid ::
  "nat \<Rightarrow> real \<Rightarrow> real \<Rightarrow> real \<Rightarrow> real \<Rightarrow> real \<Rightarrow> string \<Rightarrow> asteroid" where
  "new_Asteroid ident u1 u2 u3 u4 u5 color =
     (let aAU = randomRange BELT_INNER_RADIUS BELT_OUTER_RADIUS u1;
          orbit = Orbit \<lparr>orb_a = aAU * AU_TO_PIXELS,
                   orb_e = randomRange MIN_ECCENTRICITY MAX_ECCENTRICITY u2,
                   orb_omega = randomRange 0 (2 * Math_PI) u3,
                   orb_M0 = randomRange 0 (2 * Math_PI) u4\<rparr>
      in \<lparr>ast_id = ident,
          ast_orbit = orbit,
          ast_radius = randomPowerLaw MIN_ASTEROID_RADIUS MAX_ASTEROID_RADIUS 3 u5,
          ast_color = color,
          ast_orbitPath = generateOrbitPath_value orbit ORBIT_PATH_POINTS,
          ast_x = Num 0, ast_y = Num 0, ast_vx = Num 0, ast_vy = Num 0,
          ast_period = orbitalPeriod_value (orbit_a orbit)\<rparr>)"

text \<open>\<open>Asteroid.fromOrbit\<close> constructs an asteroid (with its random draws) and then
  overwrites the orbit, the radius, the colour and the two caches.\<close>

definition fromOrbit ::
  "nat \<Rightarrow> orbit_value \<Rightarrow> real \<Rightarrow> string \<Rightarrow>
   real \<Rightarrow> real \<Rightarrow> real \<Rightarrow> real \<Rightarrow> real \<Rightarrow> string \<Rightarrow> asteroid" where
  "fromOrbit ident orbit radius color u1 u2 u3 u4 u5 color0 =
     (let asteroid = new_Asteroid ident u1 u2 u3 u4 u5 color0;
          asteroid = asteroid\<lparr>ast_orbit := orbit\<rparr>;
          asteroid = asteroid\<lparr>ast_radius := radius\<rparr>;
          asteroid = asteroid\<lparr>ast_color := color\<rparr>;
          asteroid = asteroid\<lparr>ast_orbitPath :=
                       generateOrbitPath_value (ast_orbit asteroid) ORBIT_PATH_POINTS\<rparr>;
          asteroid = asteroid\<lparr>ast_period :=
                       orbitalPeriod_value (orbit_a (ast_orbit asteroid))\<rparr>
      in asteroid)"

definition update :: "asteroid \<Rightarrow> real \<Rightarrow> asteroid" where
  "update this t =
     (case ast_orbit this of
        Orbit el \<Rightarrow>
          (let pos = getPositionAtTime el t;
               vel = getVelocityAtTime el t
           in this\<lparr>ast_x := Num (pos_x pos), ast_y := Num (pos_y pos),
                    ast_vx := Num (vel_vx vel), ast_vy := Num (vel_vy vel)\<rparr>)
      | NaNOrbit a \<Rightarrow>
          this\<lparr>ast_x := NaN, ast_y := NaN, ast_vx := NaN, ast_vy := NaN\<rparr>)"

text \<open>
  \<open>applyDeltaV\<close> returns the asteroid after the call with the boolean result.  Every
  result of \<open>computeOrbitFromStateVectors\<close> other than \<open>null\<close> is stored, the object with
  \<open>NaN\<close> fields too.
\<close>

definition applyDeltaV :: "asteroid \<Rightarrow> real \<Rightarrow> real \<Rightarrow> real \<Rightarrow> asteroid \<times> bool" where
  "applyDeltaV this dvx dvy t =
     (let newVx = plus_number (ast_vx this) dvx;
          newVy = plus_number (ast_vy this) dvy;
          newOrbit = computeOrbit_value (ast_x this) (ast_y this) newVx newVy
      in case newOrbit of
           None \<Rightarrow> (this, False)
         | Some orbit \<Rightarrow>
             (this\<lparr>ast_orbit := orbit,
                   ast_orbitPath := generateOrbitPath_value orbit ORBIT_PATH_POINTS,
                   ast_period := orbitalPeriod_value (orbit_a orbit),
                   ast_vx := newVx, ast_vy := newVy\<rparr>, True))"

definition setOrbit :: "asteroid \<Rightarrow> orbit_value \<Rightarrow> asteroid" where
  "setOrbit this orbit =
     this\<lparr>ast_orbit := orbit,
          ast_orbitPath := generateOrbitPath_value orbit ORBIT_PATH_POINTS,
          ast_period := orbitalPeriod_value (orbit_a orbit)\<rparr>"

text \<open>The operations a caller can apply to an asteroid, and a run of them from left to
  right.\<close>

datatype body_op = Update real | ApplyDeltaV real real real | SetOrbit orbit_value

fun apply_op :: "asteroid \<Rightarrow> body_op \<Rightarrow> asteroid" where
  "apply_op this (Update t) = update this t"
| "apply_op this (ApplyDeltaV dvx dvy t) = fst (applyDeltaV this dvx dvy t)"
| "apply_op this (SetOrbit orbit) = setOrbit this orbit"

fun run :: "asteroid \<Rightarrow> body_op list \<Rightarrow> asteroid" where
  "run this [] = this"
| "run this (op # ops) = run (apply_op this op) ops"

section \<open>Spatial index: \<open>selection.js\<close>\<close>

text \<open>
  The objects held by the index are anything with \<open>x\<close>, \<open>y\<close> and \<open>radius\<close> properties
  (asteroids, at run time).  \<open>obj_id\<close> stands for the identity of the JavaScript object.
\<close>

record qt_object =
  obj_id :: nat
  obj_x :: real
  obj_y :: real
  obj_radius :: real

text \<open>The \<open>bounds\<close> object \<open>{ x, y, width, height }\<close> of a node.\<close>

record bounds =
  b_x :: real
  b_y :: real
  b_width :: real
  b_height :: real

text \<open>
  A \<open>QuadTree\<close> node.  \<open>Leaf\<close> is a node with \<open>divided = false\<close> (its four child fields
  are \<open>null\<close>); \<open>Divided\<close> is a node with \<open>divided = true\<close> and its children
  \<open>northeast\<close>, \<open>northwest\<close>, \<open>southeast\<close>, \<open>southwest\<close>.  Both carry \<open>bounds\<close>,
  \<open>capacity\<close> and \<open>objects\<close>.
\<close>

datatype quadtree =
  Leaf (qt_bounds: bounds) (qt_capacity: nat) (qt_objects: "qt_object list")
| Divided (qt_bounds: bounds) (qt_capacity: nat) (qt_objects: "qt_object list")
    (northeast: quadtree) (northwest: quadtree) (southeast: quadtree) (southwest: quadtree)

definition new_QuadTree :: "bounds \<Rightarrow> nat \<Rightarrow> quadtree" where
  "new_QuadTree b cap = Leaf b cap []"

definition containsPoint :: "bounds \<Rightarrow> real \<Rightarrow> real \<Rightarrow> bool" where
  "containsPoint b px py \<longleftrightarrow>
     px \<ge> b_x b \<and> px < b_x b + b_width b \<and> py \<ge> b_y b \<and> py < b_y b + b_height b"

definition intersectsCircle :: "bounds \<Rightarrow> real \<Rightarrow> real \<Rightarrow> real \<Rightarrow> bool" where
  "intersectsCircle b cx cy radius =
     (let closestX = max (b_x b) (min cx (b_x b + b_width b));
          closestY = max (b_y b) (min cy (b_y b + b_height b));
          dx = cx - closestX;
          dy = cy - closestY
      in dx * dx + dy * dy \<le> radius * radius)"

text \<open>The four child nodes that \<open>subdivide\<close> creates, in the order NE, NW, SE, SW.  The
  halves and the sums \<open>x + w\<close>, \<open>y + h\<close> are exact here; the program rounds the sums.\<close>

definition subdivide :: "bounds \<Rightarrow> nat \<Rightarrow> quadtree \<times> quadtree \<times> quadtree \<times> quadtree" where
  "subdivide b cap =
     (let x = b_x b; y = b_y b; w = b_width b / 2; h = b_height b / 2
      in (new_QuadTree \<lparr>b_x = x + w, b_y = y, b_width = w, b_height = h\<rparr> cap,
          new_QuadTree \<lparr>b_x = x, b_y = y, b_width = w, b_height = h\<rparr> cap,
          new_QuadTree \<lparr>b_x = x + w, b_y = y + h, b_width = w, b_height = h\<rparr> cap,
          new_QuadTree \<lparr>b_x = x, b_y = y + h, b_width = w, b_height = h\<rparr> cap))"

text \<open>
  \<open>ne.insert(o) || nw.insert(o) || se.insert(o) || sw.insert(o)\<close>: the children are tried
  in this order and the first that accepts ends the chain.  \<open>ins\<close> is the recursive
  \<open>insert\<close>; \<open>None\<close> is a call that did not return.
\<close>

definition insert_quadrants ::
  "(quadtree \<Rightarrow> qt_object \<Rightarrow> (quadtree \<times> bool) option) \<Rightarrow>
   quadtree \<times> quadtree \<times> quadtree \<times> quadtree \<Rightarrow> qt_object \<Rightarrow>
   ((quadtree \<times> quadtree \<times> quadtree \<times> quadtree) \<times> bool) option" where
  "insert_quadrants ins kids obj =
     (case kids of (ne, nw, se, sw) \<Rightarrow>
      (case ins ne obj of None \<Rightarrow> None
       | Some (ne', r1) \<Rightarrow> if r1 then Some ((ne', nw, se, sw), True) else
      (case ins nw obj of None \<Rightarrow> None
       | Some (nw', r2) \<Rightarrow> if r2 then Some ((ne', nw', se, sw), True) else
      (case ins se obj of None \<Rightarrow> None
       | Some (se', r3) \<Rightarrow> if r3 then Some ((ne', nw', se', sw), True) else
      (case ins sw obj of None \<Rightarrow> None
       | Some (sw', r4) \<Rightarrow> Some ((ne', nw', se', sw'), r4))))))"

text \<open>The loop \<open>for (const existing of this.objects)\<close> that moves the objects of a node
  that has just been subdivided into its children; the results of the chains are dropped.\<close>

fun redistribute ::
  "(quadtree \<Rightarrow> qt_object \<Rightarrow> (quadtree \<times> bool) option) \<Rightarrow>
   quadtree \<times> quadtree \<times> quadtree \<times> quadtree \<Rightarrow> qt_object list \<Rightarrow>
   (quadtree \<times> quadtree \<times> quadtree \<times> quadtree) option" where
  "redistribute ins kids [] = Some kids"
| "redistribute ins kids (existing # rest) =
     (case insert_quadrants ins kids existing of None \<Rightarrow> None
      | Some (kids', _) \<Rightarrow> redistribute ins kids' rest)"

text \<open>
  \<open>QuadTree.insert\<close>.  The method mutates the tree and returns a boolean; the model
  returns the new tree with the boolean.  The recursion has no bound in the source (a
  full leaf whose objects and the new one all fall into the same quadrant subdivides
  again), so the first argument is the depth of recursion still available, and \<open>None\<close>
  is a call that exhausted it.
\<close>

primrec qt_insert :: "nat \<Rightarrow> quadtree \<Rightarrow> qt_object \<Rightarrow> (quadtree \<times> bool) option" where
  "qt_insert 0 = (\<lambda>t obj. None)"
| "qt_insert (Suc n) = (\<lambda>t obj.
     if \<not> containsPoint (qt_bounds t) (obj_x obj) (obj_y obj) then Some (t, False)
     else (case t of
       Leaf b cap objs \<Rightarrow>
         if length objs < cap then Some (Leaf b cap (objs @ [obj]), True)
         else (case redistribute (qt_insert n) (subdivide b cap) objs of None \<Rightarrow> None
               | Some kids \<Rightarrow>
                 (case insert_quadrants (qt_insert n) kids obj of None \<Rightarrow> None
                  | Some ((ne, nw, se, sw), r) \<Rightarrow> Some (Divided b cap [] ne nw se sw, r)))
     | Divided b cap objs ne nw se sw \<Rightarrow>
         (case insert_quadrants (qt_insert n) (ne, nw, se, sw) obj of None \<Rightarrow> None
          | Some ((ne', nw', se', sw'), r) \<Rightarrow> Some (Divided b cap objs ne' nw' se' sw', r))))"

text \<open>The exact test of \<open>queryCircle\<close> on one object.\<close>

definition in_circle :: "real \<Rightarrow> real \<Rightarrow> real \<Rightarrow> qt_object \<Rightarrow> bool" where
  "in_circle cx cy radius obj =
     (let dx = obj_x obj - cx; dy = obj_y obj - cy
      in dx * dx + dy * dy \<le> radius * radius)"

text \<open>\<open>QuadTree.queryCircle\<close>; \<open>found\<close> is the accumulator array that the calls share.\<close>

fun queryCircle :: "quadtree \<Rightarrow> real \<Rightarrow> real \<Rightarrow> real \<Rightarrow> qt_object list \<Rightarrow> qt_object list" where
  "queryCircle (Leaf b cap objs) cx cy radius found =
     (if \<not> intersectsCircle b cx cy radius then found
      else found @ filter (in_circle cx cy radius) objs)"
| "queryCircle (Divided b cap objs ne nw se sw) cx cy radius found =
     (if \<not> intersectsCircle b cx cy radius then found
      else queryCircle sw cx cy radius
             (queryCircle se cx cy radius
               (queryCircle nw cx cy radius
                 (queryCircle ne cx cy radius
                   (found @ filter (in_circle cx cy radius) objs)))))"

text \<open>Every object held anywhere in a tree, in the order a query visits the nodes.\<close>

fun all_objects :: "quadtree \<Rightarrow> qt_object list" where
  "all_objects (Leaf b cap objs) = objs"
| "all_objects (Divided b cap objs ne nw se sw) =
     objs @ all_objects ne @ all_objects nw @ all_objects se @ all_objects sw"

text \<open>The loop \<open>for (const asteroid of asteroids) this.quadtree.insert(asteroid)\<close>; the
  boolean results are dropped, as in the source.\<close>

fun insert_each :: "nat \<Rightarrow> quadtree \<Rightarrow> qt_object list \<Rightarrow> quadtree option" where
  "insert_each n t [] = Some t"
| "insert_each n t (asteroid # rest) =
     (case qt_insert n t asteroid of None \<Rightarrow> None
      | Some (t', _) \<Rightarrow> insert_each n t' rest)"

text \<open>The world bounds \<open>{ minX, minY, width, height }\<close> handed to \<open>rebuildQuadtree\<close>.\<close>

record world_bounds =
  minX :: real
  minY :: real
  wb_width :: real
  wb_height :: real

text \<open>\<open>SelectionManager.rebuildQuadtree\<close>: the value stored in \<open>this.quadtree\<close>.\<close>

definition rebuildQuadtree :: "nat \<Rightarrow> qt_object list \<Rightarrow> world_bounds \<Rightarrow> quadtree option" where
  "rebuildQuadtree n asteroids wb =
     insert_each n
       (new_QuadTree \<lparr>b_x = minX wb, b_y = minY wb, b_width = wb_width wb,
                      b_height = wb_height wb\<rparr> 8)
       asteroids"

text \<open>The distance from the query point that \<open>findAsteroidAt\<close> computes for a candidate.\<close>

definition pick_dist :: "real \<Rightarrow> real \<Rightarrow> qt_object \<Rightarrow> real" where
  "pick_dist worldX worldY asteroid =
     (let dx = worldX - obj_x asteroid; dy = worldY - obj_y asteroid
      in sqrt (dx * dx + dy * dy))"

text \<open>
  The selection loop of \<open>findAsteroidAt\<close> over the candidates, with its two variables
  \<open>closest\<close> (\<open>None\<close> is \<open>null\<close>) and \<open>closestDist\<close> (\<open>None\<close> is \<open>Infinity\<close>).
\<close>

fun closest_loop ::
  "real \<Rightarrow> real \<Rightarrow> real \<Rightarrow> qt_object list \<Rightarrow> qt_object option \<Rightarrow> real option \<Rightarrow>
   qt_object option" where
  "closest_loop worldX worldY tolerance [] closest closestDist = closest"
| "closest_loop worldX worldY tolerance (asteroid # rest) closest closestDist =
     (let dist = pick_dist worldX worldY asteroid;
          hitRadius = obj_radius asteroid + tolerance
      in if dist \<le> hitRadius \<and> (case closestDist of None \<Rightarrow> True | Some d \<Rightarrow> dist < d)
         then closest_loop worldX worldY tolerance rest (Some asteroid) (Some dist)
         else closest_loop worldX worldY tolerance rest closest closestDist)"

text \<open>\<open>SelectionManager.findAsteroidAt\<close>; the first argument is \<open>this.quadtree\<close>, \<open>None\<close>
  when it is still \<open>null\<close>.\<close>

definition findAsteroidAt ::
  "quadtree option \<Rightarrow> real \<Rightarrow> real \<Rightarrow> real \<Rightarrow> qt_object option" where
  "findAsteroidAt quadtree worldX worldY tolerance =
     (case quadtree of None \<Rightarrow> None
      | Some t \<Rightarrow>
          (let candidates = queryCircle t worldX worldY (tolerance + 50) []
           in closest_loop worldX worldY tolerance candidates None None))"

section \<open>Predicates of the proofs\<close>

text \<open>
  None of the definitions of this section is code of the program: they state the
  invariants that the proofs below carry.
\<close>

text \<open>Every object held in a subtree lies inside the bounds of the subtree's root.\<close>

fun contained :: "quadtree \<Rightarrow> bool" where
  "contained (Leaf b cap objs) = (\<forall>obj \<in> set objs. containsPoint b (obj_x obj) (obj_y obj))"
| "contained (Divided b cap objs ne nw se sw) =
     ((\<forall>obj \<in> set (objs @ all_objects ne @ all_objects nw @ all_objects se @ all_objects sw).
          containsPoint b (obj_x obj) (obj_y obj)) \<and>
      contained ne \<and> contained nw \<and> contained se \<and> contained sw)"

text \<open>The bounds of the four children that \<open>subdivide\<close> gives a node with bounds \<open>b\<close>.\<close>

definition quadNE :: "bounds \<Rightarrow> bounds" where
  "quadNE b = \<lparr>b_x = b_x b + b_width b / 2, b_y = b_y b, b_width = b_width b / 2, b_height = b_height b / 2\<rparr>"

definition quadNW :: "bounds \<Rightarrow> bounds" where
  "quadNW b = \<lparr>b_x = b_x b, b_y = b_y b, b_width = b_width b / 2, b_height = b_height b / 2\<rparr>"

definition quadSE :: "bounds \<Rightarrow> bounds" where
  "quadSE b = \<lparr>b_x = b_x b + b_width b / 2, b_y = b_y b + b_height b / 2, b_width = b_width b / 2, b_height = b_height b / 2\<rparr>"

definition quadSW :: "bounds \<Rightarrow> bounds" where
  "quadSW b = \<lparr>b_x = b_x b, b_y = b_y b + b_height b / 2, b_width = b_width b / 2, b_height = b_height b / 2\<rparr>"

text \<open>
  A well-formed tree: a leaf holds at most \<open>capacity\<close> objects, all inside its bounds; a
  divided node holds none itself, and its children are well-formed trees over its four
  quadrants, with its capacity.
\<close>

fun qt_wf :: "quadtree \<Rightarrow> bool" where
  "qt_wf (Leaf b cap objs) =
     (length objs \<le> cap \<and> (\<forall>obj \<in> set objs. containsPoint b (obj_x obj) (obj_y obj)))"
| "qt_wf (Divided b cap objs ne nw se sw) =
     (objs = [] \<and>
      qt_bounds ne = quadNE b \<and> qt_bounds nw = quadNW b \<and>
      qt_bounds se = quadSE b \<and> qt_bounds sw = quadSW b \<and>
      qt_capacity ne = cap \<and> qt_capacity nw = cap \<and> qt_capacity se = cap \<and> qt_capacity sw = cap \<and>
      qt_wf ne \<and> qt_wf nw \<and> qt_wf se \<and> qt_wf sw)"

text \<open>What a call of \<open>insert\<close> on a well-formed node guarantees when it returns: the
  node stays well-formed, with the bounds and capacity it had; the result is \<open>true\<close>
  exactly for an object inside the bounds, and then the object is held once more.\<close>

definition insert_post :: "quadtree \<Rightarrow> qt_object \<Rightarrow> quadtree \<Rightarrow> bool \<Rightarrow> bool" where
  "insert_post t obj t' r \<longleftrightarrow>
     qt_wf t' \<and> qt_bounds t' = qt_bounds t \<and> qt_capacity t' = qt_capacity t \<and>
     (r \<longleftrightarrow> containsPoint (qt_bounds t) (obj_x obj) (obj_y obj)) \<and>
     mset (all_objects t') = mset (all_objects t) + (if r then {#obj#} else {#})"

text \<open>A function that behaves like \<open>insert\<close> in this respect.\<close>

definition ins_ok :: "(quadtree \<Rightarrow> qt_object \<Rightarrow> (quadtree \<times> bool) option) \<Rightarrow> bool" where
  "ins_ok ins \<longleftrightarrow> (\<forall>t obj t' r. qt_wf t \<longrightarrow> ins t obj = Some (t', r) \<longrightarrow> insert_post t obj t' r)"

text \<open>The four children of a node: well-formed, over its quadrants, with its capacity;
  the objects they hold; and the largest of their heights.\<close>

fun kids_ok :: "bounds \<Rightarrow> nat \<Rightarrow> quadtree \<times> quadtree \<times> quadtree \<times> quadtree \<Rightarrow> bool" where
  "kids_ok b cap (ne, nw, se, sw) \<longleftrightarrow>
      qt_bounds ne = quadNE b \<and> qt_bounds nw = quadNW b \<and>
      qt_bounds se = quadSE b \<and> qt_bounds sw = quadSW b \<and>
      qt_capacity ne = cap \<and> qt_capacity nw = cap \<and> qt_capacity se = cap \<and> qt_capacity sw = cap \<and>
      qt_wf ne \<and> qt_wf nw \<and> qt_wf se \<and> qt_wf sw"

fun kids_objects :: "quadtree \<times> quadtree \<times> quadtree \<times> quadtree \<Rightarrow> qt_object list" where
  "kids_objects (ne, nw, se, sw) = all_objects ne @ all_objects nw @ all_objects se @ all_objects sw"

text \<open>The number of levels of divided nodes.\<close>

fun height :: "quadtree \<Rightarrow> nat" where
  "height (Leaf b cap objs) = 0"
| "height (Divided b cap objs ne nw se sw) =
     Suc (max (max (height ne) (height nw)) (max (height se) (height sw)))"

fun kids_height :: "quadtree \<times> quadtree \<times> quadtree \<times> quadtree \<Rightarrow> nat" where
  "kids_height (ne, nw, se, sw) = max (max (height ne) (height nw)) (max (height se) (height sw))"

text \<open>Any two different objects of \<open>S\<close> are at least \<open>ex\<close> apart in \<open>x\<close> or at least
  \<open>ey\<close> apart in \<open>y\<close>.\<close>

definition sep :: "real \<Rightarrow> real \<Rightarrow> qt_object set \<Rightarrow> bool" where
  "sep ex ey S \<longleftrightarrow>
     (\<forall>p \<in> S. \<forall>q \<in> S. p \<noteq> q \<longrightarrow> ex \<le> \<bar>obj_x p - obj_x q\<bar> \<or> ey \<le> \<bar>obj_y p - obj_y q\<bar>)"

text \<open>The test \<open>dist <= hitRadius\<close> of \<open>findAsteroidAt\<close> on one object.\<close>

definition hit :: "real \<Rightarrow> real \<Rightarrow> real \<Rightarrow> qt_object \<Rightarrow> bool" where
  "hit worldX worldY tolerance asteroid \<longleftrightarrow>
     pick_dist worldX worldY asteroid \<le> obj_radius asteroid + tolerance"

text \<open>The cached path and period of an asteroid are those of its current orbit.\<close>

definition cache_consistent :: "asteroid \<Rightarrow> bool" where
  "cache_consistent this \<longleftrightarrow>
     ast_orbitPath this = generateOrbitPath_value (ast_orbit this) ORBIT_PATH_POINTS \<and>
     ast_period this = orbitalPeriod_value (orbit_a (ast_orbit this))"

text \<open>Kepler's function \<open>f = E - e * sinE - M\<close> of the solver, the step \<open>deltaE = f / fPrime\<close>
  of one iteration of its loop, and the next value \<open>E - deltaE\<close>.\<close>

definition kf :: "real \<Rightarrow> real \<Rightarrow> real \<Rightarrow> real" where
  "kf e M x = x - e * sin x - M"

definition kdelta :: "real \<Rightarrow> real \<Rightarrow> real \<Rightarrow> real" where
  "kdelta e M x = (x - e * sin x - M) / (1 - e * cos x)"

definition kstep :: "real \<Rightarrow> real \<Rightarrow> real \<Rightarrow> real" where
  "kstep e M x = x - kdelta e M x"






section \<open>Divisors\<close>




section \<open>State vectors to elements\<close>

lemma magnitude_nonneg: "0 \<le> magnitude x y"
  by (simp add: magnitude_def)

lemma magnitude_sq: "magnitude x y * magnitude x y = x * x + y * y"
  by (simp add: magnitude_def)

lemma magnitude_zero_iff: "magnitude x y = 0 \<longleftrightarrow> x = 0 \<and> y = 0"
  by (simp add: magnitude_def add_nonneg_eq_0_iff)

text \<open>The squared eccentricity in terms of energy and angular momentum.\<close>

lemma ecc_vector_identity:
  fixes rx ry vx vy rho s :: real
  assumes rho: "rho * rho = rx * rx + ry * ry" and pos: "0 < rho"
    and s: "s = vx * vx + vy * vy"
  shows "((s - MU / rho) * rx - (rx * vx + ry * vy) * vx) * ((s - MU / rho) * rx - (rx * vx + ry * vy) * vx) +
         ((s - MU / rho) * ry - (rx * vx + ry * vy) * vy) * ((s - MU / rho) * ry - (rx * vx + ry * vy) * vy)
         = MU * MU + (s * rho - 2 * MU) * ((rx * vy - ry * vx) * (rx * vy - ry * vx)) / rho"
proof -
  define t where "t = s - MU / rho"
  define d where "d = rx * vx + ry * vy"
  define h where "h = rx * vy - ry * vx"
  have lag: "h * h = (rho * rho) * s - d * d"
    unfolding h_def d_def s rho by (simp add: algebra_simps)
  have trho: "t * rho = s * rho - MU" unfolding t_def using pos by (simp add: field_simps)
  have "(t * rx - d * vx) * (t * rx - d * vx) + (t * ry - d * vy) * (t * ry - d * vy)
        = t * t * (rx * rx + ry * ry) - 2 * t * d * (rx * vx + ry * vy) + d * d * (vx * vx + vy * vy)"
    by (simp add: algebra_simps)
  also have "\<dots> = (t * rho) * (t * rho) - 2 * t * (d * d) + d * d * s"
    unfolding rho[symmetric] s[symmetric] d_def[symmetric] by (simp add: algebra_simps)
  also have "\<dots> = (s * rho - MU) * (s * rho - MU) - 2 * t * (d * d) + d * d * s"
    unfolding trho ..
  also have "\<dots> = MU * MU + (s * rho - 2 * MU) * (h * h) / rho"
  proof -
    have "(s * rho - 2 * MU) * (h * h) / rho = (s * rho - 2 * MU) * (rho * s) - (s * rho - 2 * MU) * (d * d) / rho"
      unfolding lag using pos by (simp add: field_simps)
    moreover have "(s * rho - 2 * MU) * (d * d) / rho = (s - 2 * MU / rho) * (d * d)"
      using pos by (simp add: field_simps)
    moreover have "2 * t * (d * d) = (2 * s - 2 * MU / rho) * (d * d)"
      unfolding t_def by (simp add: algebra_simps)
    ultimately show ?thesis by (simp add: algebra_simps)
  qed
  finally show ?thesis unfolding t_def d_def h_def .
qed

text \<open>The three results of \<open>computeOrbitFromStateVectors\<close>, and the fields \<open>a\<close> and
  \<open>e\<close> of an elements result.\<close>

lemma computeOrbit_NonFinite_iff:
  "computeOrbitFromStateVectors r v = NonFiniteElements \<longleftrightarrow>
     magnitude (pos_x r) (pos_y r) = 0"
  by (simp add: computeOrbitFromStateVectors_def Let_def)

lemma computeOrbit_NoOrbit_iff:
  "computeOrbitFromStateVectors r v = NoOrbit \<longleftrightarrow>
     magnitude (pos_x r) (pos_y r) \<noteq> 0 \<and>
     magnitude (vel_vx v) (vel_vy v) * magnitude (vel_vx v) (vel_vy v) / 2
       - MU / magnitude (pos_x r) (pos_y r) \<ge> 0"
  by (simp add: computeOrbitFromStateVectors_def Let_def)

lemma computeOrbit_Elements_fields:
  assumes "computeOrbitFromStateVectors r v = Elements el"
  shows "magnitude (pos_x r) (pos_y r) \<noteq> 0"
    and "magnitude (vel_vx v) (vel_vy v) * magnitude (vel_vx v) (vel_vy v) / 2
           - MU / magnitude (pos_x r) (pos_y r) < 0"
    and "orb_a el = - MU / (2 * (magnitude (vel_vx v) (vel_vy v) * magnitude (vel_vx v) (vel_vy v) / 2
           - MU / magnitude (pos_x r) (pos_y r)))"
    and "orb_e el =
           magnitude
            (((magnitude (vel_vx v) (vel_vy v) * magnitude (vel_vx v) (vel_vy v)
                 - MU / magnitude (pos_x r) (pos_y r)) * pos_x r
               - dot (pos_x r) (pos_y r) (vel_vx v) (vel_vy v) * vel_vx v) / MU)
            (((magnitude (vel_vx v) (vel_vy v) * magnitude (vel_vx v) (vel_vy v)
                 - MU / magnitude (pos_x r) (pos_y r)) * pos_y r
               - dot (pos_x r) (pos_y r) (vel_vx v) (vel_vy v) * vel_vy v) / MU)"
proof -
  show 1: "magnitude (pos_x r) (pos_y r) \<noteq> 0"
    using assms by (auto simp: computeOrbitFromStateVectors_def Let_def split: if_splits)
  show 2: "magnitude (vel_vx v) (vel_vy v) * magnitude (vel_vx v) (vel_vy v) / 2
           - MU / magnitude (pos_x r) (pos_y r) < 0"
    using assms 1 by (auto simp: computeOrbitFromStateVectors_def Let_def split: if_splits)
  from assms 1 2 have el: "el = \<lparr>orb_a = - MU / (2 * (magnitude (vel_vx v) (vel_vy v) * magnitude (vel_vx v) (vel_vy v) / 2
           - MU / magnitude (pos_x r) (pos_y r))),
      orb_e = magnitude
            (((magnitude (vel_vx v) (vel_vy v) * magnitude (vel_vx v) (vel_vy v)
                 - MU / magnitude (pos_x r) (pos_y r)) * pos_x r
               - dot (pos_x r) (pos_y r) (vel_vx v) (vel_vy v) * vel_vx v) / MU)
            (((magnitude (vel_vx v) (vel_vy v) * magnitude (vel_vx v) (vel_vy v)
                 - MU / magnitude (pos_x r) (pos_y r)) * pos_y r
               - dot (pos_x r) (pos_y r) (vel_vx v) (vel_vy v) * vel_vy v) / MU),
      orb_omega = orb_omega el, orb_M0 = orb_M0 el\<rparr>"
    unfolding computeOrbitFromStateVectors_def Let_def
    by (simp only: if_False not_le[symmetric] not_less orbit_result.inject) (auto simp: not_le)
  show "orb_a el = - MU / (2 * (magnitude (vel_vx v) (vel_vy v) * magnitude (vel_vx v) (vel_vy v) / 2
           - MU / magnitude (pos_x r) (pos_y r)))"
    by (subst el) simp
  show "orb_e el =
           magnitude
            (((magnitude (vel_vx v) (vel_vy v) * magnitude (vel_vx v) (vel_vy v)
                 - MU / magnitude (pos_x r) (pos_y r)) * pos_x r
               - dot (pos_x r) (pos_y r) (vel_vx v) (vel_vy v) * vel_vx v) / MU)
            (((magnitude (vel_vx v) (vel_vy v) * magnitude (vel_vx v) (vel_vy v)
                 - MU / magnitude (pos_x r) (pos_y r)) * pos_y r
               - dot (pos_x r) (pos_y r) (vel_vx v) (vel_vy v) * vel_vy v) / MU)"
    by (subst el) simp
qed

text \<open>With \<open>rho = |r|\<close>, \<open>s = |v|^2\<close> and \<open>h\<close> the angular momentum, the squared
  eccentricity is \<open>1 + (s * rho - 2 * MU) * h^2 / (rho * MU^2)\<close>, and a negative energy
  is \<open>s * rho < 2 * MU\<close>.  The upper bound on the eccentricity and the case of
  equality are facts of exact arithmetic: the rounded eccentricity of the program
  can land on either side of 1 by a unit in the last place.\<close>

lemma elements_range:
  assumes res: "computeOrbitFromStateVectors r v = Elements el"
  shows "0 < orb_a el" "0 \<le> orb_e el" "orb_e el \<le> 1"
    "orb_e el < 1 \<longleftrightarrow> cross (pos_x r) (pos_y r) (vel_vx v) (vel_vy v) \<noteq> 0"
proof -
  define rx ry vx vy where "rx = pos_x r" and "ry = pos_y r" and "vx = vel_vx v" and "vy = vel_vy v"
  define rho where "rho = magnitude rx ry"
  define s where "s = vx * vx + vy * vy"
  define h where "h = rx * vy - ry * vx"
  define X where "X = (s - MU / rho) * rx - (rx * vx + ry * vy) * vx"
  define Y where "Y = (s - MU / rho) * ry - (rx * vx + ry * vy) * vy"
  note f = computeOrbit_Elements_fields[OF res, folded rx_def ry_def vx_def vy_def,
      unfolded magnitude_sq, folded rho_def s_def, unfolded dot_def, folded X_def Y_def]
  have mu: "0 < MU" by (simp add: MU_def)
  have rho0: "0 < rho" using f(1) magnitude_nonneg[of rx ry] unfolding rho_def by linarith
  have rho2: "rho * rho = rx * rx + ry * ry" unfolding rho_def by (rule magnitude_sq)
  have en: "s / 2 - MU / rho < 0" by (rule f(2))
  then have "s / 2 < MU / rho" by simp
  then have "s / 2 * rho < MU" using rho0 by (simp add: pos_less_divide_eq)
  then have neg: "s * rho - 2 * MU < 0" by simp
  have n1: "- MU < 0" using mu by simp
  have n2: "2 * (s / 2 - MU / rho) < 0" by (rule mult_pos_neg[OF _ en]) simp
  have "0 < - MU / (2 * (s / 2 - MU / rho))" using n1 n2 by (rule divide_neg_neg)
  then show "0 < orb_a el" unfolding f(3) .
  show "0 \<le> orb_e el" unfolding f(4) by (rule magnitude_nonneg)
  have id: "X * X + Y * Y = MU * MU + (s * rho - 2 * MU) * (h * h) / rho"
    unfolding X_def Y_def h_def by (rule ecc_vector_identity[OF rho2 rho0 s_def])
  have q: "X / MU * (X / MU) + Y / MU * (Y / MU) = 1 + (s * rho - 2 * MU) * (h * h) / rho / (MU * MU)"
  proof -
    have "X / MU * (X / MU) + Y / MU * (Y / MU) = (X * X + Y * Y) / (MU * MU)"
      by (simp add: add_divide_distrib)
    also have "\<dots> = 1 + (s * rho - 2 * MU) * (h * h) / rho / (MU * MU)"
      unfolding id using mu by (simp add: add_divide_distrib)
    finally show ?thesis .
  qed
  have hh: "0 \<le> h * h" by simp
  have c: "0 < rho * (MU * MU)" using rho0 mu by simp
  have t: "(s * rho - 2 * MU) * (h * h) / rho / (MU * MU) \<le> 0"
    using neg hh c by (simp add: divide_le_0_iff mult_le_0_iff)
  have t': "(s * rho - 2 * MU) * (h * h) / rho / (MU * MU) < 0 \<longleftrightarrow> h \<noteq> 0"
    using neg rho0 mu by (auto simp: divide_less_0_iff mult_less_0_iff zero_less_mult_iff)
  show "orb_e el \<le> 1" unfolding f(4) magnitude_def q using t by simp
  show "orb_e el < 1 \<longleftrightarrow> cross (pos_x r) (pos_y r) (vel_vx v) (vel_vy v) \<noteq> 0"
    unfolding f(4) magnitude_def q cross_def using t' 
    by (simp add: rx_def ry_def vx_def vy_def h_def)
qed

text \<open>
  Claim C1, as amended.  For a position and a velocity on which
  \<open>computeOrbitFromStateVectors\<close> returns an elements record, the record has \<open>a > 0\<close> and
  \<open>e \<ge> 0\<close>.  The function puts no upper bound on \<open>e\<close>: its one guard is on the energy,
  and a bound trajectory along the radius (zero velocity, for one) comes back with \<open>e = 1\<close>.
\<close>

theorem computeOrbit_elements_positive:
  assumes "computeOrbitFromStateVectors r v = Elements el"
  shows "0 < orb_a el \<and> 0 \<le> orb_e el"
  using elements_range[of r v] assms by blast

text \<open>The function returns an elements record on every state of negative energy away
  from the origin.\<close>

lemma computeOrbit_returns_elements:
  assumes "magnitude (pos_x r) (pos_y r) \<noteq> 0"
    and "magnitude (vel_vx v) (vel_vy v) * magnitude (vel_vx v) (vel_vy v) / 2
           - MU / magnitude (pos_x r) (pos_y r) < 0"
  shows "\<exists>el. computeOrbitFromStateVectors r v = Elements el"
  using assms computeOrbit_NonFinite_iff[of r v] computeOrbit_NoOrbit_iff[of r v]
  by (cases "computeOrbitFromStateVectors r v") auto

text \<open>The amended claim C1 at \<open>r = (1, 0)\<close>, \<open>v = (0, 1)\<close>.\<close>

theorem computeOrbit_elements_positive_witness:
  "\<exists>el. computeOrbitFromStateVectors \<lparr>pos_x = 1, pos_y = 0\<rparr> \<lparr>vel_vx = 0, vel_vy = 1\<rparr> = Elements el \<and>
        0 < orb_a el \<and> 0 \<le> orb_e el"
proof -
  have "\<exists>el. computeOrbitFromStateVectors \<lparr>pos_x = 1, pos_y = 0\<rparr> \<lparr>vel_vx = 0, vel_vy = 1\<rparr> = Elements el"
    by (rule computeOrbit_returns_elements) (simp_all add: magnitude_def MU_def)
  then obtain el where
    el: "computeOrbitFromStateVectors \<lparr>pos_x = 1, pos_y = 0\<rparr> \<lparr>vel_vx = 0, vel_vy = 1\<rparr> = Elements el"
    by blast
  from computeOrbit_elements_positive[OF el] el show ?thesis by blast
qed

text \<open>
  Claim C1 fails as it is stated: for \<open>r = (1, 0)\<close> and \<open>v = (0, 0)\<close> the energy is
  \<open>-1000\<close>, the result is an elements record, and its eccentricity is \<open>1\<close>, not below \<open>1\<close>.
\<close>

theorem computeOrbit_radial_eccentricity_one:
  "(case computeOrbitFromStateVectors \<lparr>pos_x = 1, pos_y = 0\<rparr> \<lparr>vel_vx = 0, vel_vy = 0\<rparr> of
      Elements el \<Rightarrow> orb_a el = 1 / 2 \<and> orb_e el = 1
    | _ \<Rightarrow> False)"
proof -
  have "\<exists>el. computeOrbitFromStateVectors \<lparr>pos_x = 1, pos_y = 0\<rparr> \<lparr>vel_vx = 0, vel_vy = 0\<rparr> = Elements el"
    by (rule computeOrbit_returns_elements) (simp_all add: magnitude_def MU_def)
  then obtain el where
    el: "computeOrbitFromStateVectors \<lparr>pos_x = 1, pos_y = 0\<rparr> \<lparr>vel_vx = 0, vel_vy = 0\<rparr> = Elements el"
    by blast
  from computeOrbit_Elements_fields(3,4)[OF el]
  have "orb_a el = 1 / 2" "orb_e el = 1" by (simp_all add: magnitude_def MU_def dot_def)
  with el show ?thesis by simp
qed

text \<open>
  Claim C2.  \<open>computeOrbitFromStateVectors\<close> returns \<open>null\<close> exactly when the specific
  orbital energy \<open>|v|^2 / 2 - MU / |r|\<close> is at least zero.  At \<open>|r| = 0\<close> the energy of the
  program is \<open>-Infinity\<close>, which is not at least zero, and the result is not \<open>null\<close>.  The
  function is total: on every input it returns one of its three results and raises
  nothing.
\<close>

theorem escape_iff_energy_nonnegative:
  "computeOrbitFromStateVectors r v = NoOrbit \<longleftrightarrow>
     magnitude (pos_x r) (pos_y r) \<noteq> 0 \<and>
     magnitude (vel_vx v) (vel_vy v) * magnitude (vel_vx v) (vel_vy v) / 2
       - MU / magnitude (pos_x r) (pos_y r) \<ge> 0"
  by (rule computeOrbit_NoOrbit_iff)

text \<open>Claim C2 on an escaping state and on a bound one.\<close>

theorem escape_iff_energy_nonnegative_witness:
  "computeOrbitFromStateVectors \<lparr>pos_x = 1, pos_y = 0\<rparr> \<lparr>vel_vx = 100, vel_vy = 0\<rparr> = NoOrbit \<and>
   computeOrbitFromStateVectors \<lparr>pos_x = 1, pos_y = 0\<rparr> \<lparr>vel_vx = 0, vel_vy = 1\<rparr> \<noteq> NoOrbit"
  unfolding escape_iff_energy_nonnegative by (simp add: magnitude_def MU_def)

section \<open>The body\<close>

text \<open>\<open>computeOrbitFromStateVectors\<close> returns \<open>null\<close> on the numbers of a body only when all
  four are real and the real function returns \<open>null\<close>.\<close>

lemma computeOrbit_value_None_iff:
  "computeOrbit_value x y vx vy = None \<longleftrightarrow>
     (\<exists>rx ry rvx rvy. x = Num rx \<and> y = Num ry \<and> vx = Num rvx \<and> vy = Num rvy \<and>
        computeOrbitFromStateVectors \<lparr>pos_x = rx, pos_y = ry\<rparr>
          \<lparr>vel_vx = rvx, vel_vy = rvy\<rparr> = NoOrbit)"
  by (auto simp: computeOrbit_value_def split: number.splits orbit_result.splits)

text \<open>
  Claim C3.  When \<open>computeOrbitFromStateVectors\<close> on the body's position and its
  velocity plus the delta-v returns \<open>null\<close>, \<open>applyDeltaV\<close> returns \<open>false\<close> and the body
  is as it was: orbit, path, period, position and velocity.
\<close>

theorem applyDeltaV_escape_unchanged:
  assumes "computeOrbit_value (ast_x this) (ast_y this)
             (plus_number (ast_vx this) dvx) (plus_number (ast_vy this) dvy) = None"
  shows "applyDeltaV this dvx dvy t = (this, False)"
  using assms by (simp add: applyDeltaV_def Let_def)

text \<open>Claim C3 on a body at \<open>(1, 0)\<close> at rest, with a delta-v of \<open>(100, 0)\<close>.\<close>

theorem applyDeltaV_escape_unchanged_witness:
  "computeOrbitFromStateVectors \<lparr>pos_x = 1, pos_y = 0\<rparr> \<lparr>vel_vx = 0 + 100, vel_vy = 0 + 0\<rparr> = NoOrbit \<and>
   computeOrbit_value (Num 1) (Num 0) (plus_number (Num 0) 100) (plus_number (Num 0) 0) = None \<and>
   applyDeltaV
     \<lparr>ast_id = 0, ast_orbit = Orbit \<lparr>orb_a = 1, orb_e = 0, orb_omega = 0, orb_M0 = 0\<rparr>,
      ast_radius = 2, ast_color = ''hsl(30, 5%, 40%)'', ast_orbitPath = [],
      ast_x = Num 1, ast_y = Num 0, ast_vx = Num 0, ast_vy = Num 0, ast_period = Num 0\<rparr> 100 0 0 =
   (\<lparr>ast_id = 0, ast_orbit = Orbit \<lparr>orb_a = 1, orb_e = 0, orb_omega = 0, orb_M0 = 0\<rparr>,
      ast_radius = 2, ast_color = ''hsl(30, 5%, 40%)'', ast_orbitPath = [],
      ast_x = Num 1, ast_y = Num 0, ast_vx = Num 0, ast_vy = Num 0, ast_period = Num 0\<rparr>, False)"
proof -
  let ?body = "\<lparr>ast_id = 0, ast_orbit = Orbit \<lparr>orb_a = 1, orb_e = 0, orb_omega = 0, orb_M0 = 0\<rparr>,
      ast_radius = 2, ast_color = ''hsl(30, 5%, 40%)'', ast_orbitPath = [],
      ast_x = Num 1, ast_y = Num 0, ast_vx = Num 0, ast_vy = Num 0, ast_period = Num 0\<rparr>"
  have e: "computeOrbitFromStateVectors \<lparr>pos_x = 1, pos_y = 0\<rparr>
             \<lparr>vel_vx = 0 + 100, vel_vy = 0 + 0\<rparr> = NoOrbit"
    unfolding computeOrbit_NoOrbit_iff by (simp add: magnitude_def MU_def)
  have n: "computeOrbit_value (Num 1) (Num 0) (plus_number (Num 0) 100) (plus_number (Num 0) 0)
      = None"
    unfolding computeOrbit_value_None_iff using e by (simp add: plus_number_def)
  then have "computeOrbit_value (ast_x ?body) (ast_y ?body)
      (plus_number (ast_vx ?body) 100) (plus_number (ast_vy ?body) 0) = None" by simp
  from applyDeltaV_escape_unchanged[OF this, of 0] e n show ?thesis by simp
qed

text \<open>Each constructor establishes the consistency of the caches and each operation keeps
  it.\<close>

lemma new_Asteroid_consistent: "cache_consistent (new_Asteroid ident u1 u2 u3 u4 u5 color)"
  by (simp add: cache_consistent_def new_Asteroid_def Let_def)

lemma fromOrbit_consistent:
  "cache_consistent (fromOrbit ident orbit radius color u1 u2 u3 u4 u5 color0)"
  by (simp add: cache_consistent_def fromOrbit_def Let_def)

lemma update_consistent: "cache_consistent this \<Longrightarrow> cache_consistent (update this t)"
  by (simp add: cache_consistent_def update_def Let_def split: orbit_value.splits)

lemma setOrbit_consistent: "cache_consistent (setOrbit this orbit)"
  by (simp add: cache_consistent_def setOrbit_def)

lemma applyDeltaV_consistent:
  "cache_consistent this \<Longrightarrow> cache_consistent (fst (applyDeltaV this dvx dvy t))"
  by (simp add: cache_consistent_def applyDeltaV_def Let_def split: option.splits)

lemma apply_op_consistent: "cache_consistent this \<Longrightarrow> cache_consistent (apply_op this op)"
  by (cases op) (simp_all add: update_consistent setOrbit_consistent applyDeltaV_consistent)

lemma run_consistent: "cache_consistent this \<Longrightarrow> cache_consistent (run this ops)"
  by (induction ops arbitrary: this) (simp_all add: apply_op_consistent)

text \<open>
  Claim C4.  After any sequence of \<open>update\<close>, \<open>applyDeltaV\<close> and \<open>setOrbit\<close> on a body
  made by the constructor or by \<open>fromOrbit\<close>, the cached path of the body is
  \<open>generateOrbitPath\<close> of its current orbit and its cached period is \<open>orbitalPeriod\<close> of
  the semi-major axis of that orbit.  This holds also once \<open>applyDeltaV\<close> has stored the
  object with \<open>NaN\<close> fields.
\<close>

theorem caches_follow_orbit:
  assumes "start = new_Asteroid ident u1 u2 u3 u4 u5 color0 \<or>
           start = fromOrbit ident orbit radius color u1 u2 u3 u4 u5 color0"
  shows "ast_orbitPath (run start ops) =
           generateOrbitPath_value (ast_orbit (run start ops)) ORBIT_PATH_POINTS \<and>
         ast_period (run start ops) = orbitalPeriod_value (orbit_a (ast_orbit (run start ops)))"
proof -
  from assms have "cache_consistent start"
    using new_Asteroid_consistent fromOrbit_consistent by auto
  from run_consistent[OF this, of ops] show ?thesis by (simp add: cache_consistent_def)
qed

text \<open>A burn on a body that the constructor has just made, still at the origin, stores the
  object with \<open>NaN\<close> fields, a path of \<open>NaN\<close> points and the period \<open>0\<close>.\<close>

lemma applyDeltaV_at_origin:
  "ast_orbit (run (new_Asteroid ident u1 u2 u3 u4 u5 color0) [ApplyDeltaV dvx dvy t]) =
     NaNOrbit (Num 0)"
  by (simp add: new_Asteroid_def applyDeltaV_def Let_def computeOrbit_value_def plus_number_def
      computeOrbit_NonFinite_iff[THEN iffD2] magnitude_def)

text \<open>Claim C4 on a body made by the constructor, with a burn at the origin, an update, a
  second burn, a new orbit, an update and a third burn.\<close>

theorem caches_follow_orbit_witness:
  "ast_orbitPath (run (new_Asteroid 7 0 0 0 0 0 ''hsl(40, 10%, 50%)'')
       [ApplyDeltaV 1 0 0, Update 3, ApplyDeltaV 0 1 3,
        SetOrbit (Orbit \<lparr>orb_a = 400, orb_e = 1 / 10, orb_omega = 1, orb_M0 = 2\<rparr>),
        Update 0, ApplyDeltaV 1 1 0]) =
     generateOrbitPath_value (ast_orbit (run (new_Asteroid 7 0 0 0 0 0 ''hsl(40, 10%, 50%)'')
       [ApplyDeltaV 1 0 0, Update 3, ApplyDeltaV 0 1 3,
        SetOrbit (Orbit \<lparr>orb_a = 400, orb_e = 1 / 10, orb_omega = 1, orb_M0 = 2\<rparr>),
        Update 0, ApplyDeltaV 1 1 0])) ORBIT_PATH_POINTS \<and>
   ast_period (run (new_Asteroid 7 0 0 0 0 0 ''hsl(40, 10%, 50%)'')
       [ApplyDeltaV 1 0 0, Update 3, ApplyDeltaV 0 1 3,
        SetOrbit (Orbit \<lparr>orb_a = 400, orb_e = 1 / 10, orb_omega = 1, orb_M0 = 2\<rparr>),
        Update 0, ApplyDeltaV 1 1 0]) =
     orbitalPeriod_value (orbit_a (ast_orbit (run (new_Asteroid 7 0 0 0 0 0 ''hsl(40, 10%, 50%)'')
       [ApplyDeltaV 1 0 0, Update 3, ApplyDeltaV 0 1 3,
        SetOrbit (Orbit \<lparr>orb_a = 400, orb_e = 1 / 10, orb_omega = 1, orb_M0 = 2\<rparr>),
        Update 0, ApplyDeltaV 1 1 0]))) \<and>
   ast_orbit (run (new_Asteroid 7 0 0 0 0 0 ''hsl(40, 10%, 50%)'') [ApplyDeltaV 1 0 0]) =
     NaNOrbit (Num 0) \<and>
   ast_orbitPath (run (new_Asteroid 7 0 0 0 0 0 ''hsl(40, 10%, 50%)'') [ApplyDeltaV 1 0 0]) =
     replicate (Suc ORBIT_PATH_POINTS) None"
proof -
  let ?start = "new_Asteroid 7 0 0 0 0 0 ''hsl(40, 10%, 50%)''"
  have s: "?start = new_Asteroid 7 0 0 0 0 0 ''hsl(40, 10%, 50%)'' \<or>
      ?start = fromOrbit 7 (NaNOrbit NaN) 0 [] 0 0 0 0 0 ''hsl(40, 10%, 50%)''" by simp
  note a = caches_follow_orbit[OF s, of "[ApplyDeltaV 1 0 0, Update 3, ApplyDeltaV 0 1 3,
        SetOrbit (Orbit \<lparr>orb_a = 400, orb_e = 1 / 10, orb_omega = 1, orb_M0 = 2\<rparr>),
        Update 0, ApplyDeltaV 1 1 0]"]
  note b = caches_follow_orbit[OF s, of "[ApplyDeltaV 1 0 0]"]
  have o: "ast_orbit (run ?start [ApplyDeltaV 1 0 0]) = NaNOrbit (Num 0)"
    by (rule applyDeltaV_at_origin)
  from b have "ast_orbitPath (run ?start [ApplyDeltaV 1 0 0]) = replicate (Suc ORBIT_PATH_POINTS) None"
    unfolding o by (simp add: generateOrbitPath_value_def)
  with a o show ?thesis by blast
qed

section \<open>The orbit path\<close>

text \<open>
  Partial sums of the series of \<open>arctan\<close> bound it from both sides; with Machin's formula
  they place \<open>pi\<close> strictly above \<open>Math.PI\<close>, and less than \<open>1.5e-16\<close> above it.
\<close>

lemma arctan_partial_sums:
  fixes x :: real
  assumes x: "0 \<le> x" "x \<le> 1"
  shows "(\<Sum>i<2 * n. (- 1) ^ i * (1 / real (i * 2 + 1) * x ^ (i * 2 + 1))) \<le> arctan x"
    and "arctan x \<le> (\<Sum>i<2 * n + 1. (- 1) ^ i * (1 / real (i * 2 + 1) * x ^ (i * 2 + 1)))"
proof -
  let ?a = "\<lambda>i. 1 / real (i * 2 + 1) * x ^ (i * 2 + 1)"
  have ax: "\<bar>x\<bar> \<le> 1" using x by simp
  have z: "?a \<longlonglongrightarrow> 0" by (rule zeroseq_arctan_series[OF ax])
  have p: "\<And>i. 0 \<le> ?a i" using x by simp
  have m: "?a (Suc i) \<le> ?a i" for i
  proof -
    have "x ^ (Suc i * 2 + 1) \<le> x ^ (i * 2 + 1)"
      by (rule power_decreasing) (use x in simp_all)
    moreover have "1 / real (Suc i * 2 + 1) \<le> 1 / real (i * 2 + 1)"
      by (simp add: field_simps)
    ultimately show ?thesis
      by (intro mult_mono) (use x in simp_all)
  qed
  have s: "arctan x = (\<Sum>i. (- 1) ^ i * ?a i)" by (rule arctan_series[OF ax])
  show "(\<Sum>i<2 * n. (- 1) ^ i * ?a i) \<le> arctan x"
    unfolding s by (rule summable_Leibniz'(2)[of ?a, OF z p m])
  show "arctan x \<le> (\<Sum>i<2 * n + 1. (- 1) ^ i * ?a i)"
    unfolding s by (rule summable_Leibniz'(4)[of ?a, OF z p m])
qed

lemma Math_PI_less_pi: "Math_PI < pi"
proof -
  have lo: "(\<Sum>i<12. (- 1) ^ i * (1 / real (i * 2 + 1) * (1 / 5) ^ (i * 2 + 1))) \<le> arctan (1 / 5)"
    using arctan_partial_sums(1)[of "1 / 5" 6] by simp
  have hi: "arctan (1 / 239) \<le> (\<Sum>i<3. (- 1) ^ i * (1 / real (i * 2 + 1) * (1 / 239) ^ (i * 2 + 1)))"
    using arctan_partial_sums(2)[of "1 / 239" 1] by simp
  have "pi = 16 * arctan (1 / 5) - 4 * arctan (1 / 239)" using machin by simp
  moreover have "Math_PI < 16 * (\<Sum>i<12. (- 1) ^ i * (1 / real (i * 2 + 1) * (1 / 5) ^ (i * 2 + 1)))
      - 4 * (\<Sum>i<3. (- 1) ^ i * (1 / real (i * 2 + 1) * (1 / 239) ^ (i * 2 + 1)))"
    unfolding Math_PI_def by (simp add: lessThan_nat_numeral lessThan_Suc power_divide)
  ultimately show ?thesis using lo hi by linarith
qed

lemma pi_near_Math_PI: "pi < Math_PI + 15 / 100000000000000000"
proof -
  have hi: "arctan (1 / 5) \<le> (\<Sum>i<13. (- 1) ^ i * (1 / real (i * 2 + 1) * (1 / 5) ^ (i * 2 + 1)))"
    using arctan_partial_sums(2)[of "1 / 5" 6] by simp
  have lo: "(\<Sum>i<4. (- 1) ^ i * (1 / real (i * 2 + 1) * (1 / 239) ^ (i * 2 + 1))) \<le> arctan (1 / 239)"
    using arctan_partial_sums(1)[of "1 / 239" 2] by simp
  have "pi = 16 * arctan (1 / 5) - 4 * arctan (1 / 239)" using machin by simp
  moreover have "16 * (\<Sum>i<13. (- 1) ^ i * (1 / real (i * 2 + 1) * (1 / 5) ^ (i * 2 + 1)))
      - 4 * (\<Sum>i<4. (- 1) ^ i * (1 / real (i * 2 + 1) * (1 / 239) ^ (i * 2 + 1)))
      < Math_PI + 15 / 100000000000000000"
    unfolding Math_PI_def by (simp add: lessThan_nat_numeral lessThan_Suc power_divide)
  ultimately show ?thesis using lo hi by linarith
qed

text \<open>\<open>2 * Math.PI\<close> is a little less than a full turn, so its sine is negative.\<close>

lemma sin_two_Math_PI: "sin (2 * Math_PI) < 0"
proof -
  let ?d = "2 * pi - 2 * Math_PI"
  have d0: "0 < ?d" using Math_PI_less_pi by simp
  have "pi < 2 * Math_PI" using pi_less_4 by (simp add: Math_PI_def)
  then have d1: "?d < pi" by simp
  have "sin ?d = - sin (2 * Math_PI)" by (rule sin_2pi_minus)
  moreover have "0 < sin ?d" by (rule sin_gt_zero[OF d0 d1])
  ultimately show ?thesis by linarith
qed

lemma position_periodic:
  "getPositionFromTrueAnomaly orbit (theta + 2 * pi) = getPositionFromTrueAnomaly orbit theta"
  by (simp add: getPositionFromTrueAnomaly_def)

lemma generateOrbitPath_length: "length (generateOrbitPath orbit numPoints) = numPoints + 1"
  by (simp add: generateOrbitPath_def)

lemma generateOrbitPath_nth:
  "i \<le> numPoints \<Longrightarrow>
   generateOrbitPath orbit numPoints ! i =
     getPositionFromTrueAnomaly orbit ((real i / real numPoints) * 2 * Math_PI)"
  unfolding generateOrbitPath_def Let_def
  by (subst nth_map) (simp_all del: upt_Suc)

text \<open>
  Claim C7, as amended.  For \<open>numPoints \<ge> 1\<close>, \<open>generateOrbitPath\<close> returns
  \<open>numPoints + 1\<close> samples; the first is the position at true anomaly \<open>0\<close> and the last
  is the position at true anomaly \<open>2 * Math.PI\<close>.  That is the position at the true
  anomaly \<open>2 * Math.PI - 2 * pi\<close>, which lies between \<open>-3e-16\<close> and \<open>0\<close> and is not \<open>0\<close>: the
  path closes up to the rounding of \<open>Math.PI\<close>, not exactly.
\<close>

theorem orbit_path_endpoints:
  assumes "1 \<le> numPoints"
  shows "length (generateOrbitPath orbit numPoints) = numPoints + 1 \<and>
         hd (generateOrbitPath orbit numPoints) = getPositionFromTrueAnomaly orbit 0 \<and>
         last (generateOrbitPath orbit numPoints) =
           getPositionFromTrueAnomaly orbit (2 * Math_PI) \<and>
         getPositionFromTrueAnomaly orbit (2 * Math_PI) =
           getPositionFromTrueAnomaly orbit (2 * Math_PI - 2 * pi) \<and>
         2 * Math_PI - 2 * pi < 0 \<and> - (3 / 10000000000000000) < 2 * Math_PI - 2 * pi"
proof -
  have len: "length (generateOrbitPath orbit numPoints) = numPoints + 1"
    by (rule generateOrbitPath_length)
  then have ne: "generateOrbitPath orbit numPoints \<noteq> []" by auto
  have "hd (generateOrbitPath orbit numPoints) = generateOrbitPath orbit numPoints ! 0"
    by (rule hd_conv_nth[OF ne])
  also have "\<dots> = getPositionFromTrueAnomaly orbit 0"
    by (subst generateOrbitPath_nth) simp_all
  finally have h: "hd (generateOrbitPath orbit numPoints) = getPositionFromTrueAnomaly orbit 0" .
  have "last (generateOrbitPath orbit numPoints) = generateOrbitPath orbit numPoints ! numPoints"
    using last_conv_nth[OF ne] len by simp
  also have "\<dots> = getPositionFromTrueAnomaly orbit (2 * Math_PI)"
    by (subst generateOrbitPath_nth) (use assms in simp_all)
  finally have l: "last (generateOrbitPath orbit numPoints) =
      getPositionFromTrueAnomaly orbit (2 * Math_PI)" .
  have p: "getPositionFromTrueAnomaly orbit (2 * Math_PI) =
           getPositionFromTrueAnomaly orbit (2 * Math_PI - 2 * pi)"
    using position_periodic[of orbit "2 * Math_PI - 2 * pi"] by simp
  show ?thesis using len h l p Math_PI_less_pi pi_near_Math_PI by simp
qed

text \<open>The amended claim C7 for an orbit of the belt and the default \<open>100\<close> points.\<close>

theorem orbit_path_endpoints_witness:
  "(1::nat) \<le> 100 \<and>
   length (generateOrbitPath \<lparr>orb_a = 500, orb_e = 1 / 10, orb_omega = 0, orb_M0 = 0\<rparr> 100) = 100 + 1 \<and>
   hd (generateOrbitPath \<lparr>orb_a = 500, orb_e = 1 / 10, orb_omega = 0, orb_M0 = 0\<rparr> 100) =
     getPositionFromTrueAnomaly \<lparr>orb_a = 500, orb_e = 1 / 10, orb_omega = 0, orb_M0 = 0\<rparr> 0 \<and>
   last (generateOrbitPath \<lparr>orb_a = 500, orb_e = 1 / 10, orb_omega = 0, orb_M0 = 0\<rparr> 100) =
     getPositionFromTrueAnomaly \<lparr>orb_a = 500, orb_e = 1 / 10, orb_omega = 0, orb_M0 = 0\<rparr> (2 * Math_PI)"
proof -
  have h: "(1::nat) \<le> 100" by simp
  from orbit_path_endpoints[OF h, of "\<lparr>orb_a = 500, orb_e = 1 / 10, orb_omega = 0, orb_M0 = 0\<rparr>"] h
  show ?thesis by blast
qed

text \<open>
  Claim C7 fails as it is stated: on the circular orbit \<open>a = 1\<close>, \<open>e = 0\<close>, \<open>omega = 0\<close>
  with \<open>numPoints = 1\<close> the first point is \<open>(1, 0)\<close> and the last is
  \<open>(cos (2 * Math.PI), sin (2 * Math.PI))\<close>, whose \<open>y\<close> is negative
  (\<open>Math.sin(2 * Math.PI)\<close> is \<open>-2.4492935982947064e-16\<close> in the program).
\<close>

theorem orbit_path_not_closed:
  "pos_y (hd (generateOrbitPath \<lparr>orb_a = 1, orb_e = 0, orb_omega = 0, orb_M0 = 0\<rparr> 1)) = 0 \<and>
   pos_y (last (generateOrbitPath \<lparr>orb_a = 1, orb_e = 0, orb_omega = 0, orb_M0 = 0\<rparr> 1)) < 0 \<and>
   hd (generateOrbitPath \<lparr>orb_a = 1, orb_e = 0, orb_omega = 0, orb_M0 = 0\<rparr> 1) \<noteq>
   last (generateOrbitPath \<lparr>orb_a = 1, orb_e = 0, orb_omega = 0, orb_M0 = 0\<rparr> 1)"
proof -
  let ?o = "\<lparr>orb_a = 1, orb_e = 0, orb_omega = 0, orb_M0 = 0\<rparr>"
  have p: "generateOrbitPath ?o 1 =
      [getPositionFromTrueAnomaly ?o 0, getPositionFromTrueAnomaly ?o (2 * Math_PI)]"
    by (simp add: generateOrbitPath_def)
  have a: "pos_y (getPositionFromTrueAnomaly ?o 0) = 0"
    by (simp add: getPositionFromTrueAnomaly_def)
  have b: "pos_y (getPositionFromTrueAnomaly ?o (2 * Math_PI)) = sin (2 * Math_PI)"
    by (simp add: getPositionFromTrueAnomaly_def)
  show ?thesis unfolding p using a b sin_two_Math_PI by auto
qed

section \<open>From elements to a state vector and back\<close>




section \<open>Bounds of sine and cosine\<close>

lemma nondecreasing_from_zero:
  fixes f f' :: "real \<Rightarrow> real"
  assumes z: "f 0 = 0" and w: "0 \<le> w"
    and d: "\<And>x. 0 \<le> x \<Longrightarrow> x \<le> w \<Longrightarrow> (f has_real_derivative f' x) (at x)"
    and p: "\<And>x. 0 \<le> x \<Longrightarrow> x \<le> w \<Longrightarrow> 0 \<le> f' x"
  shows "0 \<le> f w"
proof -
  have "f 0 \<le> f w"
    by (rule DERIV_nonneg_imp_nondecreasing[OF w]) (use d p in blast)
  then show ?thesis using z by simp
qed

text \<open>Polynomial bounds of sine and cosine on the non-negative reals.\<close>

lemma sin_le_self: "0 \<le> w \<Longrightarrow> sin w \<le> (w::real)"
  by (rule sin_x_le_x)

lemma cos_ge_quadratic: "1 - w * w / 2 \<le> cos (w::real)"
proof -
  have pos: "0 \<le> cos v - (1 - v * v / 2)" if v: "0 \<le> v" for v :: real
  proof (rule nondecreasing_from_zero[where f = "\<lambda>x. cos x - (1 - x * x / 2)" and f' = "\<lambda>x. x - sin x", OF _ v])
    show "cos 0 - (1 - 0 * 0 / 2) = (0::real)" by simp
    show "((\<lambda>x. cos x - (1 - x * x / 2)) has_real_derivative x - sin x) (at x)" for x :: real
      by (auto intro!: derivative_eq_intros)
    show "0 \<le> x - sin x" if "0 \<le> x" for x :: real using sin_le_self[OF that] by simp
  qed
  show ?thesis
  proof (cases "0 \<le> w")
    case True
    then show ?thesis using pos[of w] by simp
  next
    case False
    then show ?thesis using pos[of "- w"] by simp
  qed
qed

lemma sin_ge_cubic: "0 \<le> w \<Longrightarrow> w - w ^ 3 / 6 \<le> sin (w::real)"
proof -
  assume w: "0 \<le> w"
  have "0 \<le> sin w - (w - w ^ 3 / 6)"
  proof (rule nondecreasing_from_zero[where f = "\<lambda>x. sin x - (x - x ^ 3 / 6)"
        and f' = "\<lambda>x. cos x - (1 - x * x / 2)", OF _ w])
    show "sin 0 - (0 - 0 ^ 3 / 6) = (0::real)" by simp
    show "((\<lambda>x. sin x - (x - x ^ 3 / 6)) has_real_derivative cos x - (1 - x * x / 2)) (at x)"
      for x :: real
      by (auto intro!: derivative_eq_intros simp: power2_eq_square)
    show "0 \<le> cos x - (1 - x * x / 2)" for x :: real using cos_ge_quadratic[of x] by simp
  qed
  then show ?thesis by simp
qed

lemma cos_le_quartic: "0 \<le> w \<Longrightarrow> cos (w::real) \<le> 1 - w * w / 2 + w ^ 4 / 24"
proof -
  assume w: "0 \<le> w"
  have "0 \<le> 1 - w * w / 2 + w ^ 4 / 24 - cos w"
  proof (rule nondecreasing_from_zero[where f = "\<lambda>x. 1 - x * x / 2 + x ^ 4 / 24 - cos x"
        and f' = "\<lambda>x. sin x - (x - x ^ 3 / 6)", OF _ w])
    show "1 - 0 * 0 / 2 + 0 ^ 4 / 24 - cos 0 = (0::real)" by simp
    show "((\<lambda>x. 1 - x * x / 2 + x ^ 4 / 24 - cos x) has_real_derivative sin x - (x - x ^ 3 / 6)) (at x)"
      for x :: real
      by (auto intro!: derivative_eq_intros simp: field_simps)
    show "0 \<le> sin x - (x - x ^ 3 / 6)" if "0 \<le> x" for x :: real
      using sin_ge_cubic[OF that] by simp
  qed
  then show ?thesis by simp
qed

lemma sin_le_quintic: "0 \<le> w \<Longrightarrow> sin (w::real) \<le> w - w ^ 3 / 6 + w ^ 5 / 120"
proof -
  assume w: "0 \<le> w"
  have "0 \<le> w - w ^ 3 / 6 + w ^ 5 / 120 - sin w"
  proof (rule nondecreasing_from_zero[where f = "\<lambda>x. x - x ^ 3 / 6 + x ^ 5 / 120 - sin x"
        and f' = "\<lambda>x. 1 - x * x / 2 + x ^ 4 / 24 - cos x", OF _ w])
    show "0 - 0 ^ 3 / 6 + 0 ^ 5 / 120 - sin 0 = (0::real)" by simp
    show "((\<lambda>x. x - x ^ 3 / 6 + x ^ 5 / 120 - sin x) has_real_derivative
            1 - x * x / 2 + x ^ 4 / 24 - cos x) (at x)" for x :: real
      by (auto intro!: derivative_eq_intros simp: field_simps power2_eq_square)
    show "0 \<le> 1 - x * x / 2 + x ^ 4 / 24 - cos x" if "0 \<le> x" for x :: real
      using cos_le_quartic[OF that] by simp
  qed
  then show ?thesis by simp
qed

lemma sin_cubic_gap: "0 \<le> w \<Longrightarrow> w \<le> pi \<Longrightarrow> w ^ 3 / 12 \<le> w - sin (w::real)"
proof -
  assume w: "0 \<le> w" "w \<le> pi"
  have "pi < 316 / 100" using pi_near_Math_PI by (simp add: Math_PI_def)
  with w have "w * w \<le> (316 / 100) * (316 / 100)" by (intro mult_mono) auto
  then have w2: "w * w \<le> 10" by simp
  have "w ^ 5 = w ^ 3 * (w * w)" by (simp add: power_numeral_reduce)
  also have "\<dots> \<le> w ^ 3 * 10" by (rule mult_left_mono[OF w2]) (use w in simp)
  finally have "w ^ 5 / 120 \<le> w ^ 3 / 12" by simp
  with sin_le_quintic[OF w(1)] show ?thesis by simp
qed

lemma one_minus_cos_le: "1 - cos (d::real) \<le> d * d / 2"
  using cos_ge_quadratic[of d] by simp

lemma sin_minus_self_bound: "\<bar>sin d - d\<bar> \<le> \<bar>d\<bar> ^ 3 / (6::real)"
proof -
  have pos: "\<bar>sin v - v\<bar> \<le> v ^ 3 / 6" if v: "0 \<le> v" for v :: real
    using sin_ge_cubic[OF v] sin_le_self[OF v] by simp
  show ?thesis
  proof (cases "0 \<le> d")
    case True
    then show ?thesis using pos[of d] by simp
  next
    case False
    then have "\<bar>sin (- d) - (- d)\<bar> \<le> (- d) ^ 3 / 6" by (intro pos) simp
    moreover have "\<bar>sin (- d) - (- d)\<bar> = \<bar>sin d - d\<bar>" by simp
    moreover have "(- d) ^ 3 = \<bar>d\<bar> ^ 3" using False by simp
    ultimately show ?thesis by simp
  qed
qed

text \<open>Sine is concave on \<open>[0, pi]\<close>: a chord lies below the tangent at its left end and
  above the line through its right end with the slope there.\<close>

lemma sin_chord_ge:
  assumes "0 \<le> b" "b \<le> a" "a \<le> pi"
  shows "(a - b) * cos a \<le> sin a - sin b"
proof -
  have "sin b - b * cos a \<le> sin a - a * cos a"
  proof (rule DERIV_nonneg_imp_nondecreasing[OF assms(2), where f = "\<lambda>x. sin x - x * cos a"])
    fix x assume x: "b \<le> x" "x \<le> a"
    have "((\<lambda>x. sin x - x * cos a) has_real_derivative cos x - cos a) (at x)"
      by (auto intro!: derivative_eq_intros)
    moreover have "cos a \<le> cos x"
      by (rule cos_monotone_0_pi_le) (use x assms in simp_all)
    ultimately show "\<exists>y. ((\<lambda>x. sin x - x * cos a) has_real_derivative y) (at x) \<and> 0 \<le> y"
      by (intro exI[of _ "cos x - cos a"]) simp
  qed
  then show ?thesis by (simp add: algebra_simps)
qed

lemma sin_chord_le:
  assumes "0 \<le> x" "x \<le> y" "y \<le> pi"
  shows "sin y - sin x \<le> (y - x) * cos x"
proof -
  have "x * cos x - sin x \<le> y * cos x - sin y"
  proof (rule DERIV_nonneg_imp_nondecreasing[OF assms(2), where f = "\<lambda>t. t * cos x - sin t"])
    fix t assume t: "x \<le> t" "t \<le> y"
    have "((\<lambda>t. t * cos x - sin t) has_real_derivative cos x - cos t) (at t)"
      by (auto intro!: derivative_eq_intros)
    moreover have "cos t \<le> cos x"
      by (rule cos_monotone_0_pi_le) (use t assms in simp_all)
    ultimately show "\<exists>z. ((\<lambda>t. t * cos x - sin t) has_real_derivative z) (at t) \<and> 0 \<le> z"
      by (intro exI[of _ "cos x - cos t"]) simp
  qed
  then show ?thesis by (simp add: algebra_simps)
qed

text \<open>The inequality of Cusa and Huygens, \<open>3 sin a \<le> a (2 + cos a)\<close> on \<open>[0, pi]\<close>, by three
  derivatives.\<close>

lemma sin_minus_x_cos_nonneg:
  assumes a: "0 \<le> a" "a \<le> pi"
  shows "0 \<le> sin a - a * cos a"
proof (rule nondecreasing_from_zero[where f = "\<lambda>x. sin x - x * cos x" and f' = "\<lambda>x. x * sin x", OF _ a(1)])
  show "sin 0 - 0 * cos 0 = (0::real)" by simp
  show "((\<lambda>x. sin x - x * cos x) has_real_derivative x * sin x) (at x)" for x :: real
    by (auto intro!: derivative_eq_intros)
  show "0 \<le> x * sin x" if "0 \<le> x" "x \<le> a" for x
    using that a sin_ge_zero[of x] by simp
qed

lemma cusa_derivative_nonneg:
  assumes a: "0 \<le> a" "a \<le> pi"
  shows "0 \<le> 2 - 2 * cos a - a * sin a"
proof (rule nondecreasing_from_zero[where f = "\<lambda>x. 2 - 2 * cos x - x * sin x"
      and f' = "\<lambda>x. sin x - x * cos x", OF _ a(1)])
  show "2 - 2 * cos 0 - 0 * sin 0 = (0::real)" by simp
  show "((\<lambda>x. 2 - 2 * cos x - x * sin x) has_real_derivative sin x - x * cos x) (at x)"
    for x :: real
    by (auto intro!: derivative_eq_intros)
  show "0 \<le> sin x - x * cos x" if "0 \<le> x" "x \<le> a" for x
    by (rule sin_minus_x_cos_nonneg) (use that a in simp_all)
qed

lemma cusa_huygens:
  assumes a: "0 \<le> a" "a \<le> pi"
  shows "3 * sin a \<le> a * (2 + cos a)"
proof -
  have "0 \<le> a * (2 + cos a) - 3 * sin a"
  proof (rule nondecreasing_from_zero[where f = "\<lambda>x. x * (2 + cos x) - 3 * sin x"
        and f' = "\<lambda>x. 2 - 2 * cos x - x * sin x", OF _ a(1)])
    show "0 * (2 + cos 0) - 3 * sin 0 = (0::real)" by simp
    show "((\<lambda>x. x * (2 + cos x) - 3 * sin x) has_real_derivative 2 - 2 * cos x - x * sin x) (at x)"
      for x :: real
      by (auto intro!: derivative_eq_intros simp: algebra_simps)
    show "0 \<le> 2 - 2 * cos x - x * sin x" if "0 \<le> x" "x \<le> a" for x
      by (rule cusa_derivative_nonneg) (use that a in simp_all)
  qed
  then show ?thesis by simp
qed

text \<open>The same with a second point \<open>b\<close> in place of \<open>0\<close>.\<close>

lemma cusa_huygens_chord:
  assumes "0 \<le> b" "b \<le> a" "a \<le> pi"
  shows "3 * (sin a - sin b) \<le> (a - b) * (2 + cos a)"
proof -
  let ?h = "\<lambda>t. (a - t) * (2 + cos a) - 3 * sin a + 3 * sin t"
  have d: "(?h has_real_derivative 3 * cos t - (2 + cos a)) (at t)" for t
    by (auto intro!: derivative_eq_intros)
  have "0 \<le> ?h b"
  proof (cases "2 + cos a \<le> 3 * cos b")
    case True
    have "?h 0 \<le> ?h b"
    proof (rule DERIV_nonneg_imp_nondecreasing[OF assms(1)])
      fix t assume t: "0 \<le> t" "t \<le> b"
      have "cos b \<le> cos t" by (rule cos_monotone_0_pi_le) (use t assms in simp_all)
      with True have "0 \<le> 3 * cos t - (2 + cos a)" by simp
      with d[of t] show "\<exists>y. (?h has_real_derivative y) (at t) \<and> 0 \<le> y" by blast
    qed
    moreover have "0 \<le> ?h 0" using cusa_huygens[of a] assms by simp
    ultimately show ?thesis by simp
  next
    case False
    have "?h a \<le> ?h b"
    proof (rule DERIV_nonpos_imp_nonincreasing[OF assms(2)])
      fix t assume t: "b \<le> t" "t \<le> a"
      have "cos t \<le> cos b" by (rule cos_monotone_0_pi_le) (use t assms in simp_all)
      with False have "3 * cos t - (2 + cos a) \<le> 0" by simp
      with d[of t] show "\<exists>y. (?h has_real_derivative y) (at t) \<and> y \<le> 0" by blast
    qed
    then show ?thesis by simp
  qed
  then show ?thesis by simp
qed

text \<open>For \<open>e \<le> 0.8\<close> a Newton step from \<open>E = M\<close> does not pass \<open>pi\<close>: with \<open>u = pi - M\<close>
  the step is \<open>e sin u / (1 + e cos u)\<close>, which is at most \<open>u\<close>.\<close>

lemma step_from_M_bound:
  fixes e u :: real
  assumes e: "0 \<le> e" "e \<le> 85 / 100" and u: "0 \<le> u"
  shows "e * sin u / (1 + e * cos u) \<le> u"
proof -
  have den: "0 < 1 + e * cos x" for x
  proof -
    have "e * (- cos x) \<le> e * 1" by (rule mult_left_mono) (use e in simp_all)
    with e show ?thesis by simp
  qed
  let ?f = "\<lambda>x. x - e * sin x / (1 + e * cos x)"
  let ?f' = "\<lambda>x. 1 - e * (cos x + e) / ((1 + e * cos x) * (1 + e * cos x))"
  have "0 \<le> ?f u"
  proof (rule nondecreasing_from_zero[where f = ?f and f' = ?f', OF _ u])
    show "?f 0 = 0" by simp
    show "(?f has_real_derivative ?f' x) (at x)" for x
    proof -
      have nz: "1 + e * cos x \<noteq> 0" using den[of x] by simp
      have f1: "((\<lambda>x. e * sin x) has_real_derivative e * cos x) (at x)"
        by (auto intro!: derivative_eq_intros)
      have g1: "((\<lambda>x. 1 + e * cos x) has_real_derivative e * (- sin x)) (at x)"
        by (auto intro!: derivative_eq_intros)
      have sc: "sin x * sin x + cos x * cos x = 1"
        using sin_cos_squared_add[of x] by (simp add: power2_eq_square)
      have idn: "e * cos x * (1 + e * cos x) - e * sin x * (e * (- sin x)) = e * (cos x + e)"
        using sc by algebra
      have "((\<lambda>x. e * sin x / (1 + e * cos x)) has_real_derivative
              (e * cos x * (1 + e * cos x) - e * sin x * (e * (- sin x)))
                / ((1 + e * cos x) * (1 + e * cos x))) (at x)"
        by (rule DERIV_divide[OF f1 g1 nz])
      then have q: "((\<lambda>x. e * sin x / (1 + e * cos x)) has_real_derivative
              e * (cos x + e) / ((1 + e * cos x) * (1 + e * cos x))) (at x)"
        unfolding idn .
      have i: "((\<lambda>x. x) has_real_derivative 1) (at x)" by (rule DERIV_ident)
      show ?thesis by (rule DERIV_diff[OF i q])
    qed
    show "0 \<le> ?f' x" for x
    proof -
      let ?c = "cos x"
      have e2: "e * e \<le> (85 / 100) * (85 / 100)" by (rule mult_mono) (use e in simp_all)
      have "(1 + e * ?c) * (1 + e * ?c) - e * (?c + e)
          = (e * ?c + 1 / 2) * (e * ?c + 1 / 2) + (3 / 4 - e * e)"
        by (simp add: algebra_simps)
      moreover have "0 \<le> (e * ?c + 1 / 2) * (e * ?c + 1 / 2)" by simp
      ultimately have "e * (?c + e) \<le> (1 + e * ?c) * (1 + e * ?c)" using e2 by linarith
      moreover have "0 < (1 + e * ?c) * (1 + e * ?c)" using den[of x] by simp
      ultimately have "e * (?c + e) / ((1 + e * ?c) * (1 + e * ?c)) \<le> 1"
        by (simp add: divide_le_eq)
      then show ?thesis by simp
    qed
  qed
  then show ?thesis by simp
qed

section \<open>Newton's iteration for Kepler's equation\<close>

declare kepler_loop.simps [simp del]
declare normalizeAngle_up.simps [simp del]
declare normalizeAngle_down.simps [simp del]

lemma kepler_loop_step:
  "kepler_loop i E M e =
     (if i < KEPLER_MAX_ITERATIONS then
        (if \<bar>kdelta e M E\<bar> < KEPLER_TOLERANCE then kstep e M E
         else kepler_loop (i + 1) (kstep e M E) M e)
      else E)"
  by (subst kepler_loop.simps) (simp add: Let_def kdelta_def kstep_def)

lemma fprime_pos:
  fixes e x :: real
  assumes "0 \<le> e" "e < 1"
  shows "0 < 1 - e * cos x"
proof -
  have "e * cos x \<le> e * 1" by (rule mult_left_mono) (use assms in simp_all)
  with assms show ?thesis by simp
qed

lemma kdelta_times_fprime:
  assumes "0 \<le> e" "e < 1"
  shows "kdelta e M x * (1 - e * cos x) = kf e M x"
  using fprime_pos[OF assms, of x] by (simp add: kdelta_def kf_def)

text \<open>After a Newton step of length \<open>d\<close> the residual is of second order in \<open>d\<close>.\<close>

lemma kf_after_step:
  assumes e: "0 \<le> e" "e < 1"
  shows "kf e M (kstep e M x) =
         e * (sin x - sin (x - kdelta e M x) - kdelta e M x * cos x)"
proof -
  let ?d = "kdelta e M x"
  have "kf e M (kstep e M x) = (x - e * sin x - M) - ?d + e * sin x - e * sin (x - ?d)"
    by (simp add: kf_def kstep_def)
  also have "x - e * sin x - M = ?d * (1 - e * cos x)"
    using kdelta_times_fprime[OF e, of M x] by (simp add: kf_def)
  finally show ?thesis by (simp add: algebra_simps)
qed

lemma second_order_sin:
  "\<bar>sin x - sin (x - d) - d * cos x\<bar> \<le> d * d / 2 + \<bar>d\<bar> ^ 3 / (6::real)"
proof -
  have "sin x - sin (x - d) - d * cos x = sin x * (1 - cos d) + cos x * (sin d - d)"
    by (simp add: sin_diff algebra_simps)
  moreover have "\<bar>sin x * (1 - cos d)\<bar> \<le> 1 * (d * d / 2)"
  proof -
    have "\<bar>sin x * (1 - cos d)\<bar> = \<bar>sin x\<bar> * (1 - cos d)" by (simp add: abs_mult)
    also have "\<dots> \<le> 1 * (d * d / 2)"
      by (rule mult_mono) (use one_minus_cos_le[of d] in simp_all)
    finally show ?thesis .
  qed
  moreover have "\<bar>cos x * (sin d - d)\<bar> \<le> 1 * (\<bar>d\<bar> ^ 3 / 6)"
  proof -
    have "\<bar>cos x * (sin d - d)\<bar> = \<bar>cos x\<bar> * \<bar>sin d - d\<bar>" by (simp add: abs_mult)
    also have "\<dots> \<le> 1 * (\<bar>d\<bar> ^ 3 / 6)"
      by (rule mult_mono) (use sin_minus_self_bound[of d] in simp_all)
    finally show ?thesis .
  qed
  ultimately show ?thesis by linarith
qed

lemma residual_after_step:
  assumes e: "0 \<le> e" "e < 1"
  shows "\<bar>kf e M (kstep e M x)\<bar> \<le>
         kdelta e M x * kdelta e M x / 2 + \<bar>kdelta e M x\<bar> ^ 3 / 6"
proof -
  let ?d = "kdelta e M x"
  let ?t = "sin x - sin (x - ?d) - ?d * cos x"
  have "\<bar>kf e M (kstep e M x)\<bar> = e * \<bar>?t\<bar>"
    unfolding kf_after_step[OF e] using e by (simp add: abs_mult)
  also have "\<dots> \<le> 1 * \<bar>?t\<bar>" by (rule mult_right_mono) (use e in simp_all)
  also have "\<dots> \<le> ?d * ?d / 2 + \<bar>?d\<bar> ^ 3 / 6" using second_order_sin[of x ?d] by simp
  finally show ?thesis .
qed

text \<open>Kepler's function is increasing, with slope at least \<open>1 - e\<close>.\<close>

lemma sin_diff_le: "x \<le> y \<Longrightarrow> sin y - sin x \<le> y - (x::real)"
proof -
  assume xy: "x \<le> y"
  have "x - sin x \<le> y - sin y"
  proof (rule DERIV_nonneg_imp_nondecreasing[OF xy, where f = "\<lambda>t. t - sin t"])
    fix t :: real
    have "((\<lambda>t. t - sin t) has_real_derivative 1 - cos t) (at t)"
      by (auto intro!: derivative_eq_intros)
    then show "\<exists>z. ((\<lambda>t. t - sin t) has_real_derivative z) (at t) \<and> 0 \<le> z"
      by (intro exI[of _ "1 - cos t"]) simp
  qed
  then show ?thesis by simp
qed

lemma kf_increasing:
  assumes e: "0 \<le> e" "e < 1" and xy: "x < y"
  shows "kf e M x < kf e M y"
proof -
  have "e * (sin y - sin x) \<le> e * (y - x)"
    by (rule mult_left_mono) (use sin_diff_le[of x y] xy e in simp_all)
  also have "\<dots> < 1 * (y - x)" by (rule mult_strict_right_mono) (use e xy in simp_all)
  finally show ?thesis by (simp add: kf_def algebra_simps)
qed

lemma kf_root_le:
  assumes e: "0 \<le> e" "e < 1" and r: "kf e M b = 0" and p: "0 \<le> kf e M x"
  shows "b \<le> x"
proof (rule ccontr)
  assume "\<not> b \<le> x"
  then have "x < b" by simp
  from kf_increasing[OF e this, of M] r p show False by simp
qed

lemma kf_root_exists:
  assumes e: "0 \<le> e" and M: "0 \<le> M" "M \<le> pi"
  shows "\<exists>b. M \<le> b \<and> b \<le> pi \<and> kf e M b = 0"
proof -
  have lo: "kf e M M \<le> 0"
    using e sin_ge_zero[OF M] by (simp add: kf_def)
  have hi: "0 \<le> kf e M pi" using M by (simp add: kf_def)
  have c: "continuous_on {M .. pi} (kf e M)"
    unfolding kf_def by (intro continuous_intros)
  from IVT'[of "kf e M" M 0 pi, OF lo hi M(2) c] show ?thesis by blast
qed

text \<open>A Newton step from a point \<open>a\<close> between the root \<open>b\<close> and \<open>pi\<close>: it moves towards
  the root, does not pass it, and leaves at most two thirds of the distance.\<close>

lemma newton_step_right:
  assumes e: "0 \<le> e" "e < 1" and r: "kf e M b = 0"
    and b: "0 \<le> b" "b \<le> a" "a \<le> pi"
  shows "0 \<le> kdelta e M a" and "kdelta e M a \<le> a - b"
    and "(a - b) / 3 \<le> kdelta e M a"
proof -
  have fp: "0 < 1 - e * cos a" by (rule fprime_pos[OF e])
  have Mb: "M = b - e * sin b" using r by (simp add: kf_def)
  have fa: "kf e M a = (a - b) - e * (sin a - sin b)"
    unfolding kf_def Mb by (simp add: algebra_simps)
  have kd: "kdelta e M a = kf e M a / (1 - e * cos a)" by (simp add: kdelta_def kf_def)
  have s1: "sin a - sin b \<le> a - b" by (rule sin_diff_le[OF b(2)])
  have "e * (sin a - sin b) \<le> e * (a - b)" by (rule mult_left_mono[OF s1 e(1)])
  also have "\<dots> \<le> 1 * (a - b)" by (rule mult_right_mono) (use e b in simp_all)
  finally have "0 \<le> kf e M a" unfolding fa by simp
  then show "0 \<le> kdelta e M a" unfolding kd using fp by simp
  have "e * ((a - b) * cos a) \<le> e * (sin a - sin b)"
    by (rule mult_left_mono[OF sin_chord_ge[OF b] e(1)])
  then have "kf e M a \<le> (a - b) * (1 - e * cos a)" unfolding fa by (simp add: algebra_simps)
  then show "kdelta e M a \<le> a - b" unfolding kd using fp by (simp add: pos_divide_le_eq)
  have "e * (3 * (sin a - sin b)) \<le> e * ((a - b) * (2 + cos a))"
    by (rule mult_left_mono[OF cusa_huygens_chord[OF b] e(1)])
  moreover have "e * (2 * (a - b)) \<le> 1 * (2 * (a - b))"
    by (rule mult_right_mono) (use e b in simp_all)
  ultimately have "(a - b) * (1 - e * cos a) \<le> 3 * kf e M a"
    unfolding fa by (simp add: algebra_simps)
  then have "(a - b) / 3 * (1 - e * cos a) \<le> kf e M a" by simp
  then show "(a - b) / 3 \<le> kdelta e M a" unfolding kd using fp by (simp add: pos_le_divide_eq)
qed

lemma newton_iterates_right:
  assumes e: "0 \<le> e" "e < 1" and r: "kf e M b = 0"
    and b: "0 \<le> b" "b \<le> a" "a \<le> pi"
  shows "b \<le> (kstep e M ^^ n) a \<and> (kstep e M ^^ n) a \<le> pi \<and>
         (kstep e M ^^ n) a - b \<le> (2 / 3) ^ n * (a - b)"
proof (induction n)
  case 0
  show ?case using b by simp
next
  case (Suc n)
  let ?x = "(kstep e M ^^ n) a"
  from Suc have x: "b \<le> ?x" "?x \<le> pi" "?x - b \<le> (2 / 3) ^ n * (a - b)" by auto
  note s = newton_step_right[OF e r b(1) x(1) x(2)]
  have st: "(kstep e M ^^ Suc n) a = ?x - kdelta e M ?x" by (simp add: kstep_def)
  have "(?x - kdelta e M ?x) - b \<le> 2 / 3 * (?x - b)" using s(3) by simp
  also have "\<dots> \<le> 2 / 3 * ((2 / 3) ^ n * (a - b))" using x(3) by simp
  finally have c: "(?x - kdelta e M ?x) - b \<le> (2 / 3) ^ Suc n * (a - b)" by simp
  show ?case unfolding st using s(1,2) x(2) c by simp
qed

lemma newton_delta_right:
  assumes e: "0 \<le> e" "e < 1" and r: "kf e M b = 0"
    and b: "0 \<le> b" "b \<le> a" "a \<le> pi"
  shows "\<bar>kdelta e M ((kstep e M ^^ n) a)\<bar> \<le> (2 / 3) ^ n * pi"
proof -
  let ?x = "(kstep e M ^^ n) a"
  from newton_iterates_right[OF e r b, of n]
  have x: "b \<le> ?x" "?x \<le> pi" "?x - b \<le> (2 / 3) ^ n * (a - b)" by auto
  note s = newton_step_right[OF e r b(1) x(1) x(2)]
  have "a - b \<le> pi" using b by simp
  then have "(2 / 3) ^ n * (a - b) \<le> (2 / 3) ^ n * pi" by (intro mult_left_mono) simp_all
  with s(1,2) x(3) have "0 \<le> kdelta e M ?x" "kdelta e M ?x \<le> (2 / 3) ^ n * pi" by linarith+
  then show ?thesis by (simp only: abs_of_nonneg)
qed

text \<open>The first step from \<open>E = M\<close>, for \<open>e \<le> 0.85\<close> and \<open>M\<close> in \<open>[0, pi]\<close>, lands between
  the root and \<open>pi\<close>.\<close>

lemma first_step_from_M:
  assumes e: "0 \<le> e" "e \<le> 85 / 100" and M: "0 \<le> M" "M \<le> pi"
  shows "0 \<le> kf e M (kstep e M M)" and "kstep e M M \<le> pi" and "M \<le> kstep e M M"
proof -
  have e1: "e < 1" using e by simp
  have fp: "0 < 1 - e * cos M" by (rule fprime_pos[OF e(1) e1])
  let ?d = "e * sin M / (1 - e * cos M)"
  have st: "kstep e M M = M + ?d" by (simp add: kstep_def kdelta_def)
  have d0: "0 \<le> ?d" using e fp sin_ge_zero[OF M] by simp
  have "e * sin (pi - M) / (1 + e * cos (pi - M)) \<le> pi - M"
    by (rule step_from_M_bound[OF e]) (use M in simp)
  then have dle: "?d \<le> pi - M" by simp
  show "kstep e M M \<le> pi" unfolding st using dle by simp
  show "M \<le> kstep e M M" unfolding st using d0 by simp
  have "sin (M + ?d) - sin M \<le> (M + ?d - M) * cos M"
    by (rule sin_chord_le) (use M d0 dle in simp_all)
  then have "sin (M + ?d) \<le> sin M + ?d * cos M" by simp
  then have le: "e * sin (M + ?d) \<le> e * (sin M + ?d * cos M)" by (rule mult_left_mono[OF _ e(1)])
  define d where "d = ?d"
  have "d * (1 - e * cos M) = e * sin M" unfolding d_def using fp by simp
  then have "e * (sin M + d * cos M) = d" by (simp add: algebra_simps)
  with le have "e * sin (M + ?d) \<le> ?d" unfolding d_def by simp
  then show "0 \<le> kf e M (kstep e M M)" unfolding st by (simp add: kf_def)
qed

text \<open>The first step from a point within \<open>1.5e-16\<close> of \<open>pi\<close>, for \<open>e > 0.79\<close>: unless the
  step is already shorter than the tolerance, it lands between the root and \<open>pi\<close>.\<close>

lemma first_step_from_pi:
  assumes e: "79 / 100 < e" "e < 1" and M: "0 \<le> M" "M \<le> pi"
    and s: "\<bar>s\<bar> \<le> 15 / 100000000000000000"
    and big: "\<not> \<bar>kdelta e M (pi + s)\<bar> < KEPLER_TOLERANCE"
  shows "0 \<le> kf e M (kstep e M (pi + s))" and "kstep e M (pi + s) \<le> pi"
proof -
  define d where "d = kdelta e M (pi + s)"
  define w where "w = d - s"
  have e0: "0 \<le> e" using e by simp
  have ss: "s * s \<le> (15 / 100000000000000000) * (15 / 100000000000000000)"
  proof -
    have "\<bar>s\<bar> * \<bar>s\<bar> \<le> (15 / 100000000000000000) * (15 / 100000000000000000)"
      by (rule mult_mono) (use s in simp_all)
    then show ?thesis by simp
  qed
  have ss0: "0 \<le> s * s" by simp
  have cs: "1 - s * s / 2 \<le> cos s" by (rule cos_ge_quadratic)
  have cs99: "99 / 100 \<le> cos s" using cs ss by simp
  have ecs: "79 / 100 * (99 / 100) \<le> e * cos s"
    by (rule mult_mono) (use e cs99 in simp_all)
  have D: "17 / 10 \<le> 1 + e * cos s" using ecs by simp
  have sn: "\<bar>sin s\<bar> \<le> \<bar>s\<bar>" by (rule abs_sin_x_le_abs_x)
  have esn: "\<bar>e * sin s\<bar> \<le> \<bar>s\<bar>"
  proof -
    have "\<bar>e * sin s\<bar> = e * \<bar>sin s\<bar>" using e0 by (simp add: abs_mult)
    also have "\<dots> \<le> 1 * \<bar>s\<bar>" by (rule mult_mono) (use e sn in simp_all)
    finally show ?thesis by simp
  qed
  have dD: "d * (1 + e * cos s) = pi + s + e * sin s - M"
    using kdelta_times_fprime[OF e0 e(2), of M "pi + s"] by (simp add: d_def kf_def)
  have Nlo: "- (30 / 100000000000000000) \<le> pi + s + e * sin s - M"
    using M s esn by linarith
  have Nhi: "pi + s + e * sin s - M \<le> 32 / 10"
  proof -
    have "pi < Math_PI + 15 / 100000000000000000" by (rule pi_near_Math_PI)
    then have "pi \<le> 315 / 100" by (simp add: Math_PI_def)
    with M s esn show ?thesis by linarith
  qed
  have dlo: "- KEPLER_TOLERANCE < d"
  proof (rule ccontr)
    assume "\<not> - KEPLER_TOLERANCE < d"
    then have dn: "d \<le> - (1 / 100000000)" by (simp add: KEPLER_TOLERANCE_def)
    have "d * (1 + e * cos s) \<le> - (1 / 100000000) * (1 + e * cos s)"
      by (rule mult_right_mono) (use dn D in simp_all)
    also have "\<dots> \<le> - (1 / 100000000)" using D by simp
    finally show False using dD Nlo by simp
  qed
  have dtol: "1 / 100000000 \<le> d"
    using big dlo unfolding d_def[symmetric] by (simp add: KEPLER_TOLERANCE_def abs_less_iff)
  have d0: "0 \<le> d" using dtol by simp
  have dhi: "d \<le> 2"
  proof -
    have "d * (17 / 10) \<le> d * (1 + e * cos s)" by (rule mult_left_mono[OF D d0])
    with dD Nhi show ?thesis by simp
  qed
  have wlo: "9 / 1000000000 \<le> w" unfolding w_def using dtol s by (simp add: abs_le_iff)
  have w0: "0 \<le> w" using wlo by simp
  have pi3: "3 < pi" using Math_PI_less_pi by (simp add: Math_PI_def)
  have wpi: "w \<le> pi" unfolding w_def using dhi s pi3 by (simp add: abs_le_iff)
  have st: "kstep e M (pi + s) = pi - w" by (simp add: kstep_def d_def w_def)
  show "kstep e M (pi + s) \<le> pi" unfolding st using w0 by simp
  have kfs: "kf e M (kstep e M (pi + s)) = e * (d * cos s - sin w - sin s)"
  proof -
    have eq: "pi + s - d = pi - w" by (simp add: w_def)
    have "sin (pi + s - d) = sin w" unfolding eq by simp
    then show ?thesis
      unfolding kf_after_step[OF e0 e(2)] d_def[symmetric] by (simp add: algebra_simps)
  qed
  have t1: "d * (1 - s * s / 2) \<le> d * cos s" by (rule mult_left_mono[OF cs d0])
  have t2: "sin w \<le> w - w ^ 3 / 12" using sin_cubic_gap[OF w0 wpi] by simp
  have s3: "\<bar>s\<bar> ^ 3 \<le> (15 / 100000000000000000) ^ 3"
    by (rule power_mono) (use s in simp_all)
  have t3: "sin s \<le> s + (15 / 100000000000000000) ^ 3 / 6"
    using sin_minus_self_bound[of s] s3 by linarith
  have "(9 / 1000000000) ^ 3 \<le> w ^ 3" by (rule power_mono) (use wlo in simp_all)
  then have w3: "729 / 1000000000000000000000000000 \<le> w ^ 3"
    by (simp add: power3_eq_cube)
  have c3: "(15 / 100000000000000000) ^ 3 \<le> (1 / 1000000000000000000000000000000000000000 :: real)"
    by (simp add: power3_eq_cube)
  have dss: "d * (s * s) \<le> 2 * ((15 / 100000000000000000) * (15 / 100000000000000000))"
    by (rule mult_mono) (use dhi d0 ss in simp_all)
  have "d * (1 - s * s / 2) = d - d * (s * s) / 2" by (simp add: algebra_simps)
  with t1 have t1': "d - d * (s * s) / 2 \<le> d * cos s" by simp
  have dw: "d = w + s" by (simp add: w_def)
  have "0 \<le> w ^ 3 / 12 - d * (s * s) / 2 - (15 / 100000000000000000) ^ 3 / 6"
    using w3 dss c3 by linarith
  also have "\<dots> \<le> d * cos s - sin w - sin s" using t1' t2 t3 dw by linarith
  finally have "0 \<le> d * cos s - sin w - sin s" .
  then show "0 \<le> kf e M (kstep e M (pi + s))" unfolding kfs using e0 by simp
qed

text \<open>The loop as iterated Newton steps: it returns one step after the first iterate whose step
  is shorter than the tolerance, or after the last allowed iteration.\<close>

lemma kepler_loop_unroll:
  "i + n = 49 \<Longrightarrow>
   \<exists>k. kepler_loop i E M e = kstep e M ((kstep e M ^^ k) E) \<and>
       (\<bar>kdelta e M ((kstep e M ^^ k) E)\<bar> < KEPLER_TOLERANCE \<or> k = n)"
proof (induction n arbitrary: i E)
  case 0
  then have i: "i = 49" by simp
  have "kepler_loop i E M e = kstep e M E"
    unfolding i by (subst kepler_loop_step, subst kepler_loop_step)
      (simp add: KEPLER_MAX_ITERATIONS_def)
  then show ?case by (intro exI[of _ 0]) simp
next
  case (Suc n)
  then have i: "i < KEPLER_MAX_ITERATIONS" "(i + 1) + n = 49"
    by (simp_all add: KEPLER_MAX_ITERATIONS_def)
  show ?case
  proof (cases "\<bar>kdelta e M E\<bar> < KEPLER_TOLERANCE")
    case True
    then have "kepler_loop i E M e = kstep e M E"
      using i(1) by (subst kepler_loop_step) simp
    with True show ?thesis by (intro exI[of _ 0]) simp
  next
    case False
    then have st: "kepler_loop i E M e = kepler_loop (i + 1) (kstep e M E) M e"
      using i(1) by (subst kepler_loop_step) simp
    from Suc.IH[OF i(2), of "kstep e M E"] obtain k where
      k: "kepler_loop (i + 1) (kstep e M E) M e = kstep e M ((kstep e M ^^ k) (kstep e M E))"
         "\<bar>kdelta e M ((kstep e M ^^ k) (kstep e M E))\<bar> < KEPLER_TOLERANCE \<or> k = n"
      by blast
    have sw: "(kstep e M ^^ k) (kstep e M E) = (kstep e M ^^ Suc k) E"
      by (simp add: funpow_swap1)
    show ?thesis
      by (intro exI[of _ "Suc k"]) (use k st sw in auto)
  qed
qed

lemma small_step_residual:
  assumes e: "0 \<le> e" "e < 1" and d: "\<bar>kdelta e M y\<bar> \<le> 2 / 100000000"
  shows "\<bar>kf e M (kstep e M y)\<bar> < KEPLER_TOLERANCE"
proof -
  let ?d = "kdelta e M y"
  have "\<bar>?d\<bar> * \<bar>?d\<bar> \<le> (2 / 100000000) * (2 / 100000000)"
    by (rule mult_mono) (use d in simp_all)
  then have d2: "?d * ?d \<le> 4 / 10000000000000000" by simp
  have "\<bar>?d\<bar> ^ 3 \<le> (2 / 100000000) ^ 3" by (rule power_mono) (use d in simp_all)
  then have d3: "\<bar>?d\<bar> ^ 3 \<le> 8 / 1000000000000000000000000" by (simp add: power3_eq_cube)
  from residual_after_step[OF e, of M y] d2 d3 show ?thesis
    unfolding KEPLER_TOLERANCE_def by linarith
qed

lemma two_thirds_pow_48: "(2 / 3) ^ 48 * pi \<le> (2 / 100000000 :: real)"
proof -
  have "pi < Math_PI + 15 / 100000000000000000" by (rule pi_near_Math_PI)
  then have p: "pi \<le> 4" by (simp add: Math_PI_def)
  have "(2 / 3 :: real) ^ 48 \<le> 1 / 200000000" by (simp add: power_divide)
  then have "(2 / 3) ^ 48 * pi \<le> 1 / 200000000 * 4"
    by (intro mult_mono p) simp_all
  then show ?thesis by simp
qed

text \<open>The residual of the value returned by the loop, for a mean anomaly in \<open>[0, pi]\<close> and
  either of the two initial guesses.  Between \<open>0.79\<close> and \<open>0.85\<close> both guesses are covered, so
  the result does not depend on which side of the test \<open>e > 0.8\<close> an eccentricity next to
  \<open>0.8\<close> falls.\<close>

lemma kepler_loop_residual:
  assumes e: "0 \<le> e" "e < 1" and M: "0 \<le> M" "M \<le> pi"
    and x0: "(e \<le> 85 / 100 \<and> x0 = M) \<or> (79 / 100 < e \<and> \<bar>x0 - pi\<bar> \<le> 15 / 100000000000000000)"
  shows "\<bar>kf e M (kepler_loop 0 x0 M e)\<bar> < KEPLER_TOLERANCE"
proof (cases "\<bar>kdelta e M x0\<bar> < KEPLER_TOLERANCE")
  case True
  then have "kepler_loop 0 x0 M e = kstep e M x0"
    by (subst kepler_loop_step) (simp add: KEPLER_MAX_ITERATIONS_def)
  moreover have "\<bar>kdelta e M x0\<bar> \<le> 2 / 100000000"
    using True by (simp add: KEPLER_TOLERANCE_def)
  ultimately show ?thesis using small_step_residual[OF e] by simp
next
  case False
  define x1 where "x1 = kstep e M x0"
  have st: "kepler_loop 0 x0 M e = kepler_loop 1 x1 M e"
    using False by (subst kepler_loop_step) (simp add: KEPLER_MAX_ITERATIONS_def x1_def)
  from kf_root_exists[OF e(1) M] obtain b where b: "M \<le> b" "b \<le> pi" "kf e M b = 0" by blast
  have x1: "0 \<le> kf e M x1 \<and> x1 \<le> pi"
  proof -
    from x0 show ?thesis
    proof
      assume a: "e \<le> 85 / 100 \<and> x0 = M"
      then show ?thesis
        using first_step_from_M[OF e(1) _ M, of ] unfolding x1_def by simp
    next
      assume a: "79 / 100 < e \<and> \<bar>x0 - pi\<bar> \<le> 15 / 100000000000000000"
      have eq: "pi + (x0 - pi) = x0" by simp
      from a have e8: "79 / 100 < e" and s: "\<bar>x0 - pi\<bar> \<le> 15 / 100000000000000000" by simp_all
      have big: "\<not> \<bar>kdelta e M (pi + (x0 - pi))\<bar> < KEPLER_TOLERANCE"
        unfolding eq by (rule False)
      from first_step_from_pi[OF e8 e(2) M s big] show ?thesis
        unfolding eq x1_def by simp
    qed
  qed
  have b0: "0 \<le> b" using b M by simp
  have bx: "b \<le> x1" by (rule kf_root_le[OF e b(3)]) (use x1 in simp)
  have xpi: "x1 \<le> pi" using x1 by simp
  from kepler_loop_unroll[of 1 48 x1 M e] obtain k where
    k: "kepler_loop 1 x1 M e = kstep e M ((kstep e M ^^ k) x1)"
       "\<bar>kdelta e M ((kstep e M ^^ k) x1)\<bar> < KEPLER_TOLERANCE \<or> k = 48"
    by auto
  have "\<bar>kdelta e M ((kstep e M ^^ k) x1)\<bar> \<le> 2 / 100000000"
    using k(2)
  proof
    assume "\<bar>kdelta e M ((kstep e M ^^ k) x1)\<bar> < KEPLER_TOLERANCE"
    then show ?thesis by (simp add: KEPLER_TOLERANCE_def)
  next
    assume k48: "k = 48"
    from newton_delta_right[OF e b(3) b0 bx xpi, of 48] two_thirds_pow_48
    show ?thesis unfolding k48 by linarith
  qed
  from small_step_residual[OF e this] show ?thesis unfolding st k(1) .
qed

section \<open>The solver\<close>

text \<open>Mean anomalies above \<open>pi\<close> are the mirror image \<open>x \<mapsto> 2 pi - x\<close> of those below.\<close>

lemma kdelta_mirror: "kdelta e (2 * pi - M) (2 * pi - x) = - kdelta e M x"
proof -
  have s: "sin (2 * pi - x) = - sin x" by simp
  have n: "2 * pi - x - e * sin (2 * pi - x) - (2 * pi - M) = - (x - e * sin x - M)"
    unfolding s by (simp add: algebra_simps)
  have c: "cos (2 * pi - x) = cos x" by simp
  show ?thesis unfolding kdelta_def n c by (rule minus_divide_left[symmetric])
qed

lemma kstep_mirror: "kstep e (2 * pi - M) (2 * pi - x) = 2 * pi - kstep e M x"
  unfolding kstep_def kdelta_mirror by simp

lemma kf_mirror: "kf e (2 * pi - M) (2 * pi - x) = - kf e M x"
proof -
  have s: "sin (2 * pi - x) = - sin x" by simp
  show ?thesis unfolding kf_def s by (simp add: algebra_simps)
qed

lemma kepler_loop_mirror:
  "i + n = 50 \<Longrightarrow>
   kepler_loop i (2 * pi - E) (2 * pi - M) e = 2 * pi - kepler_loop i E M e"
proof (induction n arbitrary: i E)
  case 0
  then have i: "i = 50" by simp
  show ?case unfolding i
    by (subst kepler_loop_step, subst (2) kepler_loop_step) (simp add: KEPLER_MAX_ITERATIONS_def)
next
  case (Suc n)
  then have i: "i < KEPLER_MAX_ITERATIONS" "(i + 1) + n = 50"
    by (simp_all add: KEPLER_MAX_ITERATIONS_def)
  have l: "kepler_loop i (2 * pi - E) (2 * pi - M) e =
      (if \<bar>kdelta e M E\<bar> < KEPLER_TOLERANCE then 2 * pi - kstep e M E
       else kepler_loop (i + 1) (2 * pi - kstep e M E) (2 * pi - M) e)"
    by (subst kepler_loop_step) (simp add: i(1) kdelta_mirror kstep_mirror del: kepler_loop.simps)
  have r: "kepler_loop i E M e =
      (if \<bar>kdelta e M E\<bar> < KEPLER_TOLERANCE then kstep e M E
       else kepler_loop (i + 1) (kstep e M E) M e)"
    by (subst kepler_loop_step) (simp add: i(1) del: kepler_loop.simps)
  show ?case unfolding l r Suc.IH[OF i(2)] by (simp del: kepler_loop.simps)
qed

lemma normalizeAngle_id:
  assumes "0 \<le> M" "M < 2 * Math_PI"
  shows "normalizeAngle M = M"
proof -
  have u: "normalizeAngle_up M = M"
    using assms by (subst normalizeAngle_up.simps) (simp del: normalizeAngle_up.simps)
  have d: "normalizeAngle_down M = M"
    using assms by (subst normalizeAngle_down.simps) (simp del: normalizeAngle_down.simps)
  show ?thesis unfolding normalizeAngle_def u d ..
qed

lemma normalizeAngle_up_nonneg: "0 \<le> normalizeAngle_up angle"
proof (induction angle rule: normalizeAngle_up.induct)
  case (1 angle)
  show ?case
  proof (cases "angle < 0")
    case True
    then have "normalizeAngle_up angle = normalizeAngle_up (angle + 2 * Math_PI)"
      by (subst normalizeAngle_up.simps) (simp del: normalizeAngle_up.simps)
    with 1[OF True] show ?thesis by (simp del: normalizeAngle_up.simps)
  next
    case False
    then have "normalizeAngle_up angle = angle"
      by (subst normalizeAngle_up.simps) (simp del: normalizeAngle_up.simps)
    with False show ?thesis by (simp del: normalizeAngle_up.simps)
  qed
qed

lemma normalizeAngle_down_range:
  "0 \<le> angle \<Longrightarrow> 0 \<le> normalizeAngle_down angle \<and> normalizeAngle_down angle < 2 * Math_PI"
proof (induction angle rule: normalizeAngle_down.induct)
  case (1 angle)
  show ?case
  proof (cases "angle \<ge> 2 * Math_PI")
    case True
    then have eq: "normalizeAngle_down angle = normalizeAngle_down (angle - 2 * Math_PI)"
      by (subst normalizeAngle_down.simps) (simp del: normalizeAngle_down.simps)
    from True have "0 \<le> angle - 2 * Math_PI" by simp
    from 1(1)[OF True this] show ?thesis unfolding eq .
  next
    case False
    then have "normalizeAngle_down angle = angle"
      by (subst normalizeAngle_down.simps) (simp del: normalizeAngle_down.simps)
    with False 1(2) show ?thesis by (simp del: normalizeAngle_down.simps)
  qed
qed

lemma normalizeAngle_range: "0 \<le> normalizeAngle M \<and> normalizeAngle M < 2 * Math_PI"
  unfolding normalizeAngle_def by (rule normalizeAngle_down_range[OF normalizeAngle_up_nonneg])

text \<open>The residual of the solver with respect to the normalised mean anomaly.\<close>

lemma solveKepler_residual_normalised:
  assumes e: "0 \<le> e" "e < 1" and M: "0 \<le> M" "M < 2 * Math_PI"
  shows "\<bar>kf e M (kepler_loop 0 (if e > 8 / 10 then Math_PI else M) M e)\<bar> < KEPLER_TOLERANCE"
proof -
  let ?x0 = "if e > 8 / 10 then Math_PI else M"
  have near: "\<bar>Math_PI - pi\<bar> \<le> 15 / 100000000000000000"
    using Math_PI_less_pi pi_near_Math_PI by simp
  show ?thesis
  proof (cases "M \<le> pi")
    case True
    have "(e \<le> 85 / 100 \<and> ?x0 = M) \<or> (79 / 100 < e \<and> \<bar>?x0 - pi\<bar> \<le> 15 / 100000000000000000)"
      using near by auto
    from kepler_loop_residual[OF e M(1) True this] show ?thesis .
  next
    case False
    define M' where "M' = 2 * pi - M"
    define x0' where "x0' = 2 * pi - ?x0"
    have M': "0 \<le> M'" "M' \<le> pi"
      using False M Math_PI_less_pi by (simp_all add: M'_def)
    have near': "\<bar>(2 * pi - Math_PI) - pi\<bar> \<le> 15 / 100000000000000000"
      using Math_PI_less_pi pi_near_Math_PI by simp
    have c: "(e \<le> 85 / 100 \<and> x0' = M') \<or> (79 / 100 < e \<and> \<bar>x0' - pi\<bar> \<le> 15 / 100000000000000000)"
    proof (cases "e > 8 / 10")
      case True
      then have "x0' = 2 * pi - Math_PI" by (simp add: x0'_def)
      with near' True show ?thesis by simp
    next
      case False
      then show ?thesis by (simp add: x0'_def M'_def)
    qed
    have r: "\<bar>kf e M' (kepler_loop 0 x0' M' e)\<bar> < KEPLER_TOLERANCE"
      by (rule kepler_loop_residual[OF e M' c])
    have m: "2 * pi - M' = M" "2 * pi - x0' = ?x0" by (simp_all add: M'_def x0'_def)
    have "kepler_loop 0 (2 * pi - x0') (2 * pi - M') e = 2 * pi - kepler_loop 0 x0' M' e"
      by (rule kepler_loop_mirror[of 0 50]) simp
    then have "kepler_loop 0 ?x0 M e = 2 * pi - kepler_loop 0 x0' M' e" unfolding m .
    then have "kf e M (kepler_loop 0 ?x0 M e) = kf e (2 * pi - M') (2 * pi - kepler_loop 0 x0' M' e)"
      unfolding m by simp
    also have "\<dots> = - kf e M' (kepler_loop 0 x0' M' e)" by (rule kf_mirror)
    finally show ?thesis using r by simp
  qed
qed

lemma solveKepler_residual:
  assumes e: "0 \<le> e" "e < 1"
  shows "\<bar>solveKeplerEquation M e - e * sin (solveKeplerEquation M e) - normalizeAngle M\<bar>
         < KEPLER_TOLERANCE"
proof -
  note r = normalizeAngle_range[of M]
  from solveKepler_residual_normalised[OF e conjunct1[OF r] conjunct2[OF r]]
  show ?thesis by (simp add: solveKeplerEquation_def Let_def kf_def)
qed

text \<open>
  Claim C6.  For every eccentricity \<open>e\<close> in \<open>[0, 0.99)\<close>, and in \<open>[0, 1)\<close>, and every mean anomaly
  \<open>M\<close> of the interval of \<open>normalizeAngle\<close>, from \<open>0\<close> to \<open>2 * Math.PI\<close> without the end, the value
  \<open>E = solveKeplerEquation(M, e)\<close> satisfies \<open>|(E - e * sin E) - M| < KEPLER_TOLERANCE\<close>.
\<close>

theorem kepler_round_trip:
  assumes "0 \<le> e" "e < 1" "0 \<le> M" "M < 2 * Math_PI"
  shows "\<bar>(solveKeplerEquation M e - e * sin (solveKeplerEquation M e)) - M\<bar> < KEPLER_TOLERANCE"
  using solveKepler_residual[OF assms(1,2), of M] normalizeAngle_id[OF assms(3,4)] by simp

text \<open>Claim C6 at \<open>e = 0.9\<close>, \<open>M = 1\<close>.\<close>

theorem kepler_round_trip_witness:
  "(0::real) \<le> 9 / 10 \<and> (9 / 10 :: real) < 1 \<and> (0::real) \<le> 1 \<and> 1 < 2 * Math_PI \<and>
   \<bar>(solveKeplerEquation 1 (9 / 10) - 9 / 10 * sin (solveKeplerEquation 1 (9 / 10))) - 1\<bar>
     < KEPLER_TOLERANCE"
proof -
  have h: "(0::real) \<le> 9 / 10" "(9 / 10 :: real) < 1" "(0::real) \<le> 1" "1 < 2 * Math_PI"
    by (simp_all add: Math_PI_def)
  from kepler_round_trip[OF h] h show ?thesis by blast
qed

section \<open>The angles of the conversion back\<close>















section \<open>From elements to a state vector and back: the angles\<close>







section \<open>Queries on a tree\<close>

text \<open>On a tree whose objects lie inside the bounds of the nodes above them, the pruning
  by \<open>intersectsCircle\<close> loses nothing: a query returns the held objects that pass the
  exact test, in the order of the nodes.\<close>

lemma contained_all: "contained t \<Longrightarrow> obj \<in> set (all_objects t) \<Longrightarrow> containsPoint (qt_bounds t) (obj_x obj) (obj_y obj)"
  by (cases t) auto

lemma clamp_closer:
  fixes c p lo w :: real
  assumes "lo \<le> p" "p < lo + w"
  shows "(c - max lo (min c (lo + w))) * (c - max lo (min c (lo + w))) \<le> (p - c) * (p - c)"
proof -
  let ?q = "max lo (min c (lo + w))"
  have "\<bar>c - ?q\<bar> \<le> \<bar>p - c\<bar>" using assms by (auto simp: max_def min_def abs_if)
  then have "\<bar>c - ?q\<bar> * \<bar>c - ?q\<bar> \<le> \<bar>p - c\<bar> * \<bar>p - c\<bar>"
    by (intro mult_mono) auto
  then show ?thesis by simp
qed

lemma inside_hit_intersects:
  assumes "containsPoint b (obj_x obj) (obj_y obj)" "in_circle cx cy radius obj"
  shows "intersectsCircle b cx cy radius"
proof -
  have x: "(cx - max (b_x b) (min cx (b_x b + b_width b))) * (cx - max (b_x b) (min cx (b_x b + b_width b)))
        \<le> (obj_x obj - cx) * (obj_x obj - cx)"
    using assms(1) by (intro clamp_closer) (auto simp: containsPoint_def)
  have y: "(cy - max (b_y b) (min cy (b_y b + b_height b))) * (cy - max (b_y b) (min cy (b_y b + b_height b)))
        \<le> (obj_y obj - cy) * (obj_y obj - cy)"
    using assms(1) by (intro clamp_closer) (auto simp: containsPoint_def)
  from assms(2) have "(obj_x obj - cx) * (obj_x obj - cx) + (obj_y obj - cy) * (obj_y obj - cy) \<le> radius * radius"
    by (simp add: in_circle_def Let_def)
  with x y show ?thesis unfolding intersectsCircle_def Let_def by linarith
qed

lemma no_intersect_no_hit:
  assumes "contained t" "\<not> intersectsCircle (qt_bounds t) cx cy radius"
  shows "filter (in_circle cx cy radius) (all_objects t) = []"
  using assms by (auto simp: filter_empty_conv dest: contained_all inside_hit_intersects)

lemma queryCircle_filter:
  "contained t \<Longrightarrow>
   queryCircle t cx cy radius found = found @ filter (in_circle cx cy radius) (all_objects t)"
proof (induction t arbitrary: found)
  case (Leaf b cap objs)
  then show ?case using no_intersect_no_hit[of "Leaf b cap objs" cx cy radius] by auto
next
  case (Divided b cap objs ne nw se sw)
  show ?case
  proof (cases "intersectsCircle b cx cy radius")
    case False
    then show ?thesis using no_intersect_no_hit[OF Divided.prems, of cx cy radius] by simp
  next
    case True
    from Divided.prems have c: "contained ne" "contained nw" "contained se" "contained sw" by auto
    show ?thesis using True by (simp add: Divided.IH c)
  qed
qed

section \<open>Insertion keeps a tree well-formed\<close>

lemma subdivide_eq:
  "subdivide b cap = (Leaf (quadNE b) cap [], Leaf (quadNW b) cap [], Leaf (quadSE b) cap [], Leaf (quadSW b) cap [])"
  by (simp add: subdivide_def Let_def new_QuadTree_def quadNE_def quadNW_def quadSE_def quadSW_def)

lemma quadrant_cases:
  "containsPoint b px py \<longleftrightarrow>
     containsPoint (quadNE b) px py \<or> containsPoint (quadNW b) px py \<or>
     containsPoint (quadSE b) px py \<or> containsPoint (quadSW b) px py"
  by (auto simp: containsPoint_def quadNE_def quadNW_def quadSE_def quadSW_def)

lemma wf_inside: "qt_wf t \<Longrightarrow> obj \<in> set (all_objects t) \<Longrightarrow> containsPoint (qt_bounds t) (obj_x obj) (obj_y obj)"
proof (induction t)
  case (Leaf b cap objs)
  then show ?case by simp
next
  case (Divided b cap objs ne nw se sw)
  then show ?case using quadrant_cases[of b "obj_x obj" "obj_y obj"] by auto
qed

lemma wf_contained: "qt_wf t \<Longrightarrow> contained t"
proof (induction t)
  case (Leaf b cap objs)
  then show ?case by simp
next
  case (Divided b cap objs ne nw se sw)
  have "containsPoint b (obj_x obj) (obj_y obj)"
    if "obj \<in> set (all_objects (Divided b cap objs ne nw se sw))" for obj
    using wf_inside[OF Divided.prems that] by simp
  then show ?case using Divided by simp
qed

lemma quadrants_disjoint:
  "containsPoint (quadNE b) px py \<Longrightarrow> \<not> containsPoint (quadNW b) px py \<and> \<not> containsPoint (quadSE b) px py \<and> \<not> containsPoint (quadSW b) px py"
  "containsPoint (quadNW b) px py \<Longrightarrow> \<not> containsPoint (quadSE b) px py \<and> \<not> containsPoint (quadSW b) px py"
  "containsPoint (quadSE b) px py \<Longrightarrow> \<not> containsPoint (quadSW b) px py"
  by (auto simp: containsPoint_def quadNE_def quadNW_def quadSE_def quadSW_def)

lemma insert_quadrants_post:
  assumes ok: "ins_ok ins" and kids: "kids_ok b cap kids"
    and res: "insert_quadrants ins kids obj = Some (kids', r)"
  shows "kids_ok b cap kids' \<and> (r \<longleftrightarrow> containsPoint b (obj_x obj) (obj_y obj)) \<and>
         mset (kids_objects kids') = mset (kids_objects kids) + (if r then {#obj#} else {#})"
proof -
  obtain ne nw se sw where k: "kids = (ne, nw, se, sw)" by (cases kids) auto
  from kids k have w: "qt_wf ne" "qt_wf nw" "qt_wf se" "qt_wf sw" by auto
  from kids k have bd: "qt_bounds ne = quadNE b" "qt_bounds nw = quadNW b"
      "qt_bounds se = quadSE b" "qt_bounds sw = quadSW b" by auto
  from kids k have cp: "qt_capacity ne = cap" "qt_capacity nw = cap"
      "qt_capacity se = cap" "qt_capacity sw = cap" by auto
  have p: "\<And>t t' r. qt_wf t \<Longrightarrow> ins t obj = Some (t', r) \<Longrightarrow> insert_post t obj t' r"
    using ok by (auto simp: ins_ok_def)
  note qc = quadrant_cases[of b "obj_x obj" "obj_y obj"]
  from res k obtain ne1 r1 where i1: "ins ne obj = Some (ne1, r1)"
    by (auto simp: insert_quadrants_def split: option.splits)
  from p[OF w(1) i1] have p1: "qt_wf ne1" "qt_bounds ne1 = quadNE b" "qt_capacity ne1 = cap"
      "r1 \<longleftrightarrow> containsPoint (quadNE b) (obj_x obj) (obj_y obj)"
      "mset (all_objects ne1) = mset (all_objects ne) + (if r1 then {#obj#} else {#})"
    by (simp_all add: insert_post_def bd cp)
  show ?thesis
  proof (cases r1)
    case True
    with res k i1 have "kids' = (ne1, nw, se, sw)" "r = True"
      by (auto simp: insert_quadrants_def)
    then show ?thesis using p1 w bd cp True k qc by simp
  next
    case f1: False
    from res k i1 f1 obtain nw1 r2 where i2: "ins nw obj = Some (nw1, r2)"
      by (auto simp: insert_quadrants_def split: option.splits)
    from p[OF w(2) i2] have p2: "qt_wf nw1" "qt_bounds nw1 = quadNW b" "qt_capacity nw1 = cap"
        "r2 \<longleftrightarrow> containsPoint (quadNW b) (obj_x obj) (obj_y obj)"
        "mset (all_objects nw1) = mset (all_objects nw) + (if r2 then {#obj#} else {#})"
      by (simp_all add: insert_post_def bd cp)
    show ?thesis
    proof (cases r2)
      case True
      with res k i1 i2 f1 have "kids' = (ne1, nw1, se, sw)" "r = True"
        by (auto simp: insert_quadrants_def)
      then show ?thesis using p1 p2 w bd cp True f1 k qc by simp
    next
      case f2: False
      from res k i1 f1 i2 f2 obtain se1 r3 where i3: "ins se obj = Some (se1, r3)"
        by (auto simp: insert_quadrants_def split: option.splits)
      from p[OF w(3) i3] have p3: "qt_wf se1" "qt_bounds se1 = quadSE b" "qt_capacity se1 = cap"
          "r3 \<longleftrightarrow> containsPoint (quadSE b) (obj_x obj) (obj_y obj)"
          "mset (all_objects se1) = mset (all_objects se) + (if r3 then {#obj#} else {#})"
        by (simp_all add: insert_post_def bd cp)
      show ?thesis
      proof (cases r3)
        case True
        with res k i1 i2 i3 f1 f2 have "kids' = (ne1, nw1, se1, sw)" "r = True"
          by (auto simp: insert_quadrants_def)
        then show ?thesis using p1 p2 p3 w bd cp True f1 f2 k qc by simp
      next
        case f3: False
        from res k i1 f1 i2 f2 i3 f3 obtain sw1 r4 where i4: "ins sw obj = Some (sw1, r4)"
          by (auto simp: insert_quadrants_def split: option.splits)
        from p[OF w(4) i4] have p4: "qt_wf sw1" "qt_bounds sw1 = quadSW b" "qt_capacity sw1 = cap"
            "r4 \<longleftrightarrow> containsPoint (quadSW b) (obj_x obj) (obj_y obj)"
            "mset (all_objects sw1) = mset (all_objects sw) + (if r4 then {#obj#} else {#})"
          by (simp_all add: insert_post_def bd cp)
        from res k i1 i2 i3 i4 f1 f2 f3 have "kids' = (ne1, nw1, se1, sw1)" "r = r4"
          by (auto simp: insert_quadrants_def)
        then show ?thesis using p1 p2 p3 p4 w bd cp f1 f2 f3 k qc by simp
      qed
    qed
  qed
qed

lemma redistribute_post:
  assumes ok: "ins_ok ins"
  shows "kids_ok b cap kids \<Longrightarrow> redistribute ins kids rest = Some kids' \<Longrightarrow>
         kids_ok b cap kids' \<and>
         mset (kids_objects kids') =
           mset (kids_objects kids) +
           mset (filter (\<lambda>obj. containsPoint b (obj_x obj) (obj_y obj)) rest)"
proof (induction rest arbitrary: kids)
  case Nil
  then show ?case by simp
next
  case (Cons existing rest)
  from Cons.prems(2) obtain kids1 r1 where
    s1: "insert_quadrants ins kids existing = Some (kids1, r1)" and
    s2: "redistribute ins kids1 rest = Some kids'"
    by (auto split: option.splits)
  from insert_quadrants_post[OF ok Cons.prems(1) s1]
  have q: "kids_ok b cap kids1" "r1 \<longleftrightarrow> containsPoint b (obj_x existing) (obj_y existing)"
    "mset (kids_objects kids1) = mset (kids_objects kids) + (if r1 then {#existing#} else {#})"
    by auto
  from Cons.IH[OF q(1) s2] q(2,3) show ?case by auto
qed

lemma qt_insert_ok: "ins_ok (qt_insert n)"
proof (induction n)
  case 0
  show ?case by (simp add: ins_ok_def)
next
  case (Suc n)
  show ?case unfolding ins_ok_def
  proof (intro allI impI)
    fix t obj t' r
    assume wft: "qt_wf t" and res: "qt_insert (Suc n) t obj = Some (t', r)"
    show "insert_post t obj t' r"
    proof (cases "containsPoint (qt_bounds t) (obj_x obj) (obj_y obj)")
      case False
      with res have "t' = t" "r = False" by auto
      then show ?thesis using wft False by (simp add: insert_post_def)
    next
      case inside: True
      show ?thesis
      proof (cases t)
        case (Leaf b cap objs)
        show ?thesis
        proof (cases "length objs < cap")
          case True
          with res inside Leaf have "t' = Leaf b cap (objs @ [obj])" "r = True" by auto
          then show ?thesis using wft inside Leaf True by (simp add: insert_post_def)
        next
          case False
          from res inside Leaf False obtain kids where
            rd: "redistribute (qt_insert n) (subdivide b cap) objs = Some kids"
            by (auto split: option.splits)
          from res inside Leaf False rd obtain ne nw se sw where
            iq: "insert_quadrants (qt_insert n) kids obj = Some ((ne, nw, se, sw), r)"
            and t': "t' = Divided b cap [] ne nw se sw"
            by (auto split: option.splits prod.splits)
          have k0: "kids_ok b cap (subdivide b cap)" by (simp add: subdivide_eq)
          from redistribute_post[OF Suc k0 rd]
          have k1: "kids_ok b cap kids" and
            m1: "mset (kids_objects kids) = mset (filter (\<lambda>obj. containsPoint b (obj_x obj) (obj_y obj)) objs)"
            by (simp_all add: subdivide_eq)
          from wft Leaf have "filter (\<lambda>obj. containsPoint b (obj_x obj) (obj_y obj)) objs = objs"
            by (simp add: filter_id_conv)
          with m1 have m1': "mset (kids_objects kids) = mset objs" by simp
          from insert_quadrants_post[OF Suc k1 iq]
          have k2: "kids_ok b cap (ne, nw, se, sw)"
            and r2: "r \<longleftrightarrow> containsPoint b (obj_x obj) (obj_y obj)"
            and m2: "mset (kids_objects (ne, nw, se, sw)) = mset (kids_objects kids) + (if r then {#obj#} else {#})"
            by auto
          show ?thesis using k2 r2 m2 m1' t' Leaf by (simp add: insert_post_def)
        qed
      next
        case (Divided b cap objs ne nw se sw)
        from res inside Divided obtain ne' nw' se' sw' where
          iq: "insert_quadrants (qt_insert n) (ne, nw, se, sw) obj = Some ((ne', nw', se', sw'), r)"
          and t': "t' = Divided b cap objs ne' nw' se' sw'"
          by (auto split: option.splits prod.splits)
        from wft Divided have k1: "kids_ok b cap (ne, nw, se, sw)" and o: "objs = []" by auto
        from insert_quadrants_post[OF Suc k1 iq]
        have k2: "kids_ok b cap (ne', nw', se', sw')"
          and r2: "r \<longleftrightarrow> containsPoint b (obj_x obj) (obj_y obj)"
          and m2: "mset (kids_objects (ne', nw', se', sw')) = mset (kids_objects (ne, nw, se, sw)) + (if r then {#obj#} else {#})"
          by auto
        show ?thesis using k2 r2 m2 t' o Divided by (simp add: insert_post_def)
      qed
    qed
  qed
qed

section \<open>Insertion returns\<close>

text \<open>
  A leaf that is not full takes an object at once, and so do the fresh children of a
  node that is being subdivided.  Objects that are pairwise apart cannot share a cell
  that is small enough, so a recursion depth that reaches such cells is enough for every
  insertion.
\<close>

lemma leaf_insert:
  assumes "height t = 0" "length (all_objects t) < qt_capacity t"
  shows "\<exists>t' r. qt_insert (Suc m) t obj = Some (t', r) \<and> height t' = 0"
  using assms by (cases t) auto

lemma insert_quadrants_exists:
  assumes "\<exists>c r. ins ne obj = Some (c, r) \<and> height c \<le> k"
    and "\<exists>c r. ins nw obj = Some (c, r) \<and> height c \<le> k"
    and "\<exists>c r. ins se obj = Some (c, r) \<and> height c \<le> k"
    and "\<exists>c r. ins sw obj = Some (c, r) \<and> height c \<le> k"
    and "kids_height (ne, nw, se, sw) \<le> k"
  shows "\<exists>kids' r. insert_quadrants ins (ne, nw, se, sw) obj = Some (kids', r) \<and> kids_height kids' \<le> k"
proof -
  from assms(1) obtain c1 r1 where 1: "ins ne obj = Some (c1, r1)" "height c1 \<le> k" by blast
  from assms(2) obtain c2 r2 where 2: "ins nw obj = Some (c2, r2)" "height c2 \<le> k" by blast
  from assms(3) obtain c3 r3 where 3: "ins se obj = Some (c3, r3)" "height c3 \<le> k" by blast
  from assms(4) obtain c4 r4 where 4: "ins sw obj = Some (c4, r4)" "height c4 \<le> k" by blast
  show ?thesis using 1 2 3 4 assms(5) by (auto simp: insert_quadrants_def)
qed

lemma kids_count:
  "length (all_objects ne) \<le> length (kids_objects (ne, nw, se, sw))"
  "length (all_objects nw) \<le> length (kids_objects (ne, nw, se, sw))"
  "length (all_objects se) \<le> length (kids_objects (ne, nw, se, sw))"
  "length (all_objects sw) \<le> length (kids_objects (ne, nw, se, sw))"
  by simp_all

lemma redistribute_leaves:
  "kids_ok b cap kids \<Longrightarrow> kids_height kids = 0 \<Longrightarrow>
   length (kids_objects kids) + length rest \<le> cap \<Longrightarrow>
   \<exists>kids'. redistribute (qt_insert (Suc m)) kids rest = Some kids' \<and> kids_height kids' = 0"
proof (induction rest arbitrary: kids)
  case Nil
  then show ?case by simp
next
  case (Cons existing rest)
  obtain ne nw se sw where k: "kids = (ne, nw, se, sw)" by (cases kids) auto
  from Cons.prems k have lt: "length (kids_objects (ne, nw, se, sw)) < cap" by simp
  from Cons.prems(1) k have cp: "qt_capacity ne = cap" "qt_capacity nw = cap"
      "qt_capacity se = cap" "qt_capacity sw = cap" by auto
  from Cons.prems(2) k have h: "height ne = 0" "height nw = 0" "height se = 0" "height sw = 0"
    by auto
  have e: "\<exists>c r. qt_insert (Suc m) ne existing = Some (c, r) \<and> height c \<le> 0"
      "\<exists>c r. qt_insert (Suc m) nw existing = Some (c, r) \<and> height c \<le> 0"
      "\<exists>c r. qt_insert (Suc m) se existing = Some (c, r) \<and> height c \<le> 0"
      "\<exists>c r. qt_insert (Suc m) sw existing = Some (c, r) \<and> height c \<le> 0"
    using leaf_insert[OF h(1), of m existing] leaf_insert[OF h(2), of m existing]
      leaf_insert[OF h(3), of m existing] leaf_insert[OF h(4), of m existing]
      lt kids_count[of ne nw se sw] cp by auto
  have "\<exists>kids' r. insert_quadrants (qt_insert (Suc m)) (ne, nw, se, sw) existing = Some (kids', r)
           \<and> kids_height kids' \<le> 0"
    using e h by (intro insert_quadrants_exists) auto
  then obtain kids1 r1 where
    s1: "insert_quadrants (qt_insert (Suc m)) kids existing = Some (kids1, r1)"
    and h1: "kids_height kids1 = 0" unfolding k by auto
  from insert_quadrants_post[OF qt_insert_ok Cons.prems(1) s1]
  have k1: "kids_ok b cap kids1"
    and m1: "mset (kids_objects kids1) = mset (kids_objects kids) + (if r1 then {#existing#} else {#})"
    by auto
  from m1 have "size (mset (kids_objects kids1)) \<le> size (mset (kids_objects kids)) + 1"
    by (simp split: if_splits)
  then have "length (kids_objects kids1) \<le> length (kids_objects kids) + 1" by simp
  with Cons.prems(3) have c1: "length (kids_objects kids1) + length rest \<le> cap" by simp
  from Cons.IH[OF k1 h1 c1] s1 show ?case by simp
qed

lemma same_cell_close:
  assumes "containsPoint b (obj_x p) (obj_y p)" "containsPoint b (obj_x q) (obj_y q)"
  shows "\<bar>obj_x p - obj_x q\<bar> < b_width b" "\<bar>obj_y p - obj_y q\<bar> < b_height b"
  using assms by (auto simp: containsPoint_def abs_if)

lemma qt_insert_enough:
  assumes cap: "0 < cap" and sp: "sep ex ey S"
  shows "qt_wf t \<Longrightarrow> qt_capacity t = cap \<Longrightarrow> height t \<le> k \<Longrightarrow>
     b_width (qt_bounds t) \<le> 2 ^ k * ex \<Longrightarrow> b_height (qt_bounds t) \<le> 2 ^ k * ey \<Longrightarrow>
     set (all_objects t) \<subseteq> S \<Longrightarrow> obj \<in> S \<Longrightarrow> obj \<notin> set (all_objects t) \<Longrightarrow>
     \<exists>t' r. qt_insert (Suc k) t obj = Some (t', r) \<and> height t' \<le> k"
proof (induction k arbitrary: t)
  case 0
  then have lf: "height t = 0" by simp
  then obtain b objs where t: "t = Leaf b cap objs" using "0.prems"(2) by (cases t) auto
  show ?case
  proof (cases "containsPoint b (obj_x obj) (obj_y obj)")
    case False
    then show ?thesis using t by auto
  next
    case True
    have "objs = []"
    proof (rule ccontr)
      assume "objs \<noteq> []"
      then obtain p where p: "p \<in> set objs" by (cases objs) auto
      with "0.prems" t have pS: "p \<in> S" "p \<noteq> obj" "containsPoint b (obj_x p) (obj_y p)" by auto
      from same_cell_close[OF pS(3) True] "0.prems"(4,5) t
      have "\<bar>obj_x p - obj_x obj\<bar> < ex" "\<bar>obj_y p - obj_y obj\<bar> < ey" by auto
      moreover from sp pS(1,2) "0.prems"(7)
      have "ex \<le> \<bar>obj_x p - obj_x obj\<bar> \<or> ey \<le> \<bar>obj_y p - obj_y obj\<bar>"
        unfolding sep_def by blast
      ultimately show False by linarith
    qed
    then show ?thesis using t True cap by auto
  qed
next
  case (Suc k)
  note prems = Suc.prems
  show ?case
  proof (cases "containsPoint (qt_bounds t) (obj_x obj) (obj_y obj)")
    case False
    then show ?thesis using prems(3) by auto
  next
    case inside: True
    have child: "\<exists>c' r. qt_insert (Suc k) c obj = Some (c', r) \<and> height c' \<le> k"
      if "qt_wf c" "qt_capacity c = cap" "height c \<le> k"
        "b_width (qt_bounds c) = b_width (qt_bounds t) / 2"
        "b_height (qt_bounds c) = b_height (qt_bounds t) / 2"
        "set (all_objects c) \<subseteq> S" "obj \<notin> set (all_objects c)" for c
    proof (rule Suc.IH[OF that(1,2,3) _ _ that(6) prems(7) that(7)])
      show "b_width (qt_bounds c) \<le> 2 ^ k * ex" using that(4) prems(4) by simp
      show "b_height (qt_bounds c) \<le> 2 ^ k * ey" using that(5) prems(5) by simp
    qed
    have kids_step: "\<exists>kids' r. insert_quadrants (qt_insert (Suc k)) (ne, nw, se, sw) obj = Some (kids', r)
            \<and> kids_height kids' \<le> k"
      if ko: "kids_ok (qt_bounds t) cap (ne, nw, se, sw)"
        and kh: "kids_height (ne, nw, se, sw) \<le> k"
        and ks: "set (kids_objects (ne, nw, se, sw)) \<subseteq> S"
        and kn: "obj \<notin> set (kids_objects (ne, nw, se, sw))" for ne nw se sw
    proof (rule insert_quadrants_exists)
      show "\<exists>c r. qt_insert (Suc k) ne obj = Some (c, r) \<and> height c \<le> k"
        using ko kh ks kn by (intro child) (auto simp: quadNE_def)
      show "\<exists>c r. qt_insert (Suc k) nw obj = Some (c, r) \<and> height c \<le> k"
        using ko kh ks kn by (intro child) (auto simp: quadNW_def)
      show "\<exists>c r. qt_insert (Suc k) se obj = Some (c, r) \<and> height c \<le> k"
        using ko kh ks kn by (intro child) (auto simp: quadSE_def)
      show "\<exists>c r. qt_insert (Suc k) sw obj = Some (c, r) \<and> height c \<le> k"
        using ko kh ks kn by (intro child) (auto simp: quadSW_def)
      show "kids_height (ne, nw, se, sw) \<le> k" by (rule kh)
    qed
    show ?thesis
    proof (cases t)
      case (Leaf b cap' objs)
      with prems(2) have c': "cap' = cap" by simp
      show ?thesis
      proof (cases "length objs < cap")
        case True
        then show ?thesis using Leaf c' inside by auto
      next
        case False
        from prems(1) Leaf c' False have len: "length objs = cap" by simp
        have k0: "kids_ok b cap (subdivide b cap)" by (simp add: subdivide_eq)
        have h0: "kids_height (subdivide b cap) = 0" by (simp add: subdivide_eq)
        have l0: "length (kids_objects (subdivide b cap)) + length objs \<le> cap"
          using len by (simp add: subdivide_eq)
        from redistribute_leaves[OF k0 h0 l0, of k] obtain kids where
          rd: "redistribute (qt_insert (Suc k)) (subdivide b cap) objs = Some kids"
          and hk: "kids_height kids = 0" by blast
        from redistribute_post[OF qt_insert_ok k0 rd]
        have k1: "kids_ok b cap kids"
          and m1: "mset (kids_objects kids) = mset (filter (\<lambda>obj. containsPoint b (obj_x obj) (obj_y obj)) objs)"
          by (simp_all add: subdivide_eq)
        from m1 have "set_mset (mset (kids_objects kids)) \<subseteq> set objs"
          by (metis filter_is_subset set_mset_mset)
        then have sub: "set (kids_objects kids) \<subseteq> set objs" by simp
        obtain ne nw se sw where kd: "kids = (ne, nw, se, sw)" by (cases kids) auto
        have "\<exists>kids' r. insert_quadrants (qt_insert (Suc k)) (ne, nw, se, sw) obj = Some (kids', r)
            \<and> kids_height kids' \<le> k"
        proof (rule kids_step)
          show "kids_ok (qt_bounds t) cap (ne, nw, se, sw)" using k1 kd Leaf by simp
          show "kids_height (ne, nw, se, sw) \<le> k" using hk kd by simp
          show "set (kids_objects (ne, nw, se, sw)) \<subseteq> S" using sub kd prems(6) Leaf by auto
          show "obj \<notin> set (kids_objects (ne, nw, se, sw))" using sub kd prems(8) Leaf by auto
        qed
        then obtain kids' r where
          iq: "insert_quadrants (qt_insert (Suc k)) kids obj = Some (kids', r)"
          and hk': "kids_height kids' \<le> k" using kd by blast
        obtain ne' nw' se' sw' where kd': "kids' = (ne', nw', se', sw')" by (cases kids') auto
        have "qt_insert (Suc (Suc k)) t obj = Some (Divided b cap [] ne' nw' se' sw', r)"
          using Leaf c' inside False rd iq kd' by simp
        moreover have "height (Divided b cap [] ne' nw' se' sw') \<le> Suc k"
          using hk' kd' by simp
        ultimately show ?thesis by blast
      qed
    next
      case (Divided b cap' objs ne nw se sw)
      with prems(2) have c': "cap' = cap" by simp
      have "\<exists>kids' r. insert_quadrants (qt_insert (Suc k)) (ne, nw, se, sw) obj = Some (kids', r)
            \<and> kids_height kids' \<le> k"
      proof (rule kids_step)
        show "kids_ok (qt_bounds t) cap (ne, nw, se, sw)" using prems(1) Divided c' by simp
        show "kids_height (ne, nw, se, sw) \<le> k" using prems(3) Divided by simp
        show "set (kids_objects (ne, nw, se, sw)) \<subseteq> S" using prems(6) Divided by auto
        show "obj \<notin> set (kids_objects (ne, nw, se, sw))" using prems(8) Divided by auto
      qed
      then obtain kids' r where
        iq: "insert_quadrants (qt_insert (Suc k)) (ne, nw, se, sw) obj = Some (kids', r)"
        and hk': "kids_height kids' \<le> k" by blast
      obtain ne' nw' se' sw' where kd': "kids' = (ne', nw', se', sw')" by (cases kids') auto
      have "qt_insert (Suc (Suc k)) t obj = Some (Divided b cap objs ne' nw' se' sw', r)"
        using Divided c' inside iq kd' by simp
      moreover have "height (Divided b cap objs ne' nw' se' sw') \<le> Suc k"
        using hk' kd' by simp
      ultimately show ?thesis by blast
    qed
  qed
qed

lemma insert_each_post:
  "qt_wf t \<Longrightarrow> insert_each n t objs = Some t' \<Longrightarrow>
   qt_wf t' \<and> qt_bounds t' = qt_bounds t \<and> qt_capacity t' = qt_capacity t \<and>
   mset (all_objects t') =
     mset (all_objects t) +
     mset (filter (\<lambda>obj. containsPoint (qt_bounds t) (obj_x obj) (obj_y obj)) objs)"
proof (induction objs arbitrary: t)
  case Nil
  then show ?case by simp
next
  case (Cons asteroid rest)
  from Cons.prems(2) obtain t1 r1 where
    s1: "qt_insert n t asteroid = Some (t1, r1)" and s2: "insert_each n t1 rest = Some t'"
    by (auto split: option.splits)
  from qt_insert_ok[of n] Cons.prems(1) s1 have p: "insert_post t asteroid t1 r1"
    by (auto simp: ins_ok_def)
  then have w1: "qt_wf t1" by (simp add: insert_post_def)
  from Cons.IH[OF w1 s2] p show ?case by (auto simp: insert_post_def)
qed

lemma insert_each_enough:
  assumes cap: "0 < cap" and sp: "sep ex ey S"
  shows "qt_wf t \<Longrightarrow> qt_capacity t = cap \<Longrightarrow> height t \<le> k \<Longrightarrow>
     b_width (qt_bounds t) \<le> 2 ^ k * ex \<Longrightarrow> b_height (qt_bounds t) \<le> 2 ^ k * ey \<Longrightarrow>
     set (all_objects t) \<subseteq> S \<Longrightarrow> set objs \<subseteq> S \<Longrightarrow> distinct objs \<Longrightarrow>
     set objs \<inter> set (all_objects t) = {} \<Longrightarrow>
     \<exists>t'. insert_each (Suc k) t objs = Some t'"
proof (induction objs arbitrary: t)
  case Nil
  then show ?case by simp
next
  case (Cons asteroid rest)
  note prems = Cons.prems
  have "\<exists>t' r. qt_insert (Suc k) t asteroid = Some (t', r) \<and> height t' \<le> k"
    using prems by (intro qt_insert_enough[OF cap sp]) auto
  then obtain t1 r1 where s1: "qt_insert (Suc k) t asteroid = Some (t1, r1)"
    and h1: "height t1 \<le> k" by blast
  from qt_insert_ok[of "Suc k"] prems(1) s1 have p: "insert_post t asteroid t1 r1"
    by (auto simp: ins_ok_def)
  then have w1: "qt_wf t1" and b1: "qt_bounds t1 = qt_bounds t" and c1: "qt_capacity t1 = qt_capacity t"
    and m1: "mset (all_objects t1) = mset (all_objects t) + (if r1 then {#asteroid#} else {#})"
    by (simp_all add: insert_post_def)
  from m1 have "set_mset (mset (all_objects t1)) \<subseteq> insert asteroid (set (all_objects t))"
    by (auto split: if_splits)
  then have s: "set (all_objects t1) \<subseteq> insert asteroid (set (all_objects t))" by simp
  have "\<exists>t'. insert_each (Suc k) t1 rest = Some t'"
  proof (rule Cons.IH[OF w1])
    show "qt_capacity t1 = cap" using c1 prems(2) by simp
    show "height t1 \<le> k" by (rule h1)
    show "b_width (qt_bounds t1) \<le> 2 ^ k * ex" using b1 prems(4) by simp
    show "b_height (qt_bounds t1) \<le> 2 ^ k * ey" using b1 prems(5) by simp
    show "set (all_objects t1) \<subseteq> S" using s prems(6,7) by auto
    show "set rest \<subseteq> S" using prems(7) by auto
    show "distinct rest" using prems(8) by simp
    show "set rest \<inter> set (all_objects t1) = {}" using s prems(8,9) by auto
  qed
  then show ?case using s1 by simp
qed

lemma sep_exists:
  assumes d: "distinct (map (\<lambda>obj. (obj_x obj, obj_y obj)) objs)"
  shows "\<exists>ex ey. 0 < ex \<and> 0 < ey \<and> sep ex ey (set objs)"
proof -
  define DX where "DX = (\<lambda>(p, q). \<bar>obj_x p - obj_x q\<bar>) ` {(p, q). p \<in> set objs \<and> q \<in> set objs \<and> obj_x p \<noteq> obj_x q}"
  define DY where "DY = (\<lambda>(p, q). \<bar>obj_y p - obj_y q\<bar>) ` {(p, q). p \<in> set objs \<and> q \<in> set objs \<and> obj_y p \<noteq> obj_y q}"
  define ex where "ex = (if DX = {} then 1 else Min DX)"
  define ey where "ey = (if DY = {} then 1 else Min DY)"
  have "finite {(p, q). p \<in> set objs \<and> q \<in> set objs \<and> obj_x p \<noteq> obj_x q}"
    by (rule finite_subset[of _ "set objs \<times> set objs"]) auto
  then have fx: "finite DX" unfolding DX_def by (rule finite_imageI)
  have "finite {(p, q). p \<in> set objs \<and> q \<in> set objs \<and> obj_y p \<noteq> obj_y q}"
    by (rule finite_subset[of _ "set objs \<times> set objs"]) auto
  then have fy: "finite DY" unfolding DY_def by (rule finite_imageI)
  have px: "\<forall>d \<in> DX. 0 < d" unfolding DX_def by auto
  have py: "\<forall>d \<in> DY. 0 < d" unfolding DY_def by auto
  have "0 < ex" unfolding ex_def using fx px by auto
  moreover have "0 < ey" unfolding ey_def using fy py by auto
  moreover have "sep ex ey (set objs)" unfolding sep_def
  proof (intro ballI impI)
    fix p q assume pq: "p \<in> set objs" "q \<in> set objs" "p \<noteq> q"
    from d have "inj_on (\<lambda>obj. (obj_x obj, obj_y obj)) (set objs)" by (simp add: distinct_map)
    with pq have "(obj_x p, obj_y p) \<noteq> (obj_x q, obj_y q)" by (auto dest: inj_onD)
    then consider "obj_x p \<noteq> obj_x q" | "obj_y p \<noteq> obj_y q" by auto
    then show "ex \<le> \<bar>obj_x p - obj_x q\<bar> \<or> ey \<le> \<bar>obj_y p - obj_y q\<bar>"
    proof cases
      case 1
      with pq have "\<bar>obj_x p - obj_x q\<bar> \<in> DX" unfolding DX_def by force
      then have "ex \<le> \<bar>obj_x p - obj_x q\<bar>" unfolding ex_def using fx by auto
      then show ?thesis ..
    next
      case 2
      with pq have "\<bar>obj_y p - obj_y q\<bar> \<in> DY" unfolding DY_def by force
      then have "ey \<le> \<bar>obj_y p - obj_y q\<bar>" unfolding ey_def using fy by auto
      then show ?thesis ..
    qed
  qed
  ultimately show ?thesis by blast
qed

lemma depth_exists:
  fixes w h ex ey :: real
  assumes "0 < ex" "0 < ey"
  shows "\<exists>k. w \<le> 2 ^ k * ex \<and> h \<le> 2 ^ k * ey"
proof -
  obtain k1 where k1: "w / ex < 2 ^ k1" using real_arch_pow[of 2 "w / ex"] by auto
  obtain k2 where k2: "h / ey < 2 ^ k2" using real_arch_pow[of 2 "h / ey"] by auto
  have m1: "(2::real) ^ k1 \<le> 2 ^ max k1 k2" by (rule power_increasing) auto
  have m2: "(2::real) ^ k2 \<le> 2 ^ max k1 k2" by (rule power_increasing) auto
  from k1 assms(1) have "w < 2 ^ k1 * ex" by (simp add: pos_divide_less_eq)
  moreover from m1 assms(1) have "2 ^ k1 * ex \<le> 2 ^ max k1 k2 * ex"
    by (intro mult_right_mono) auto
  ultimately have a: "w \<le> 2 ^ max k1 k2 * ex" by linarith
  from k2 assms(2) have "h < 2 ^ k2 * ey" by (simp add: pos_divide_less_eq)
  moreover from m2 assms(2) have "2 ^ k2 * ey \<le> 2 ^ max k1 k2 * ey"
    by (intro mult_right_mono) auto
  ultimately have "h \<le> 2 ^ max k1 k2 * ey" by linarith
  with a show ?thesis by blast
qed

section \<open>The selection loop\<close>

lemma closest_loop_spec:
  assumes "closestDist = map_option (pick_dist wx wy) closest"
  shows "(closest_loop wx wy tol cands closest closestDist = None \<longleftrightarrow>
            closest = None \<and> (\<forall>c \<in> set cands. \<not> hit wx wy tol c)) \<and>
         (\<forall>a. closest_loop wx wy tol cands closest closestDist = Some a \<longrightarrow>
            (Some a = closest \<or> a \<in> set cands \<and> hit wx wy tol a) \<and>
            (\<forall>c \<in> set cands. hit wx wy tol c \<longrightarrow> pick_dist wx wy a \<le> pick_dist wx wy c) \<and>
            (\<forall>c. closest = Some c \<longrightarrow> pick_dist wx wy a \<le> pick_dist wx wy c))"
  using assms
proof (induction cands arbitrary: closest closestDist)
  case Nil
  then show ?case by auto
next
  case (Cons asteroid rest)
  let ?d = "pick_dist wx wy asteroid"
  show ?case
  proof (cases "hit wx wy tol asteroid \<and> (case closestDist of None \<Rightarrow> True | Some d \<Rightarrow> ?d < d)")
    case True
    then have step: "closest_loop wx wy tol (asteroid # rest) closest closestDist =
        closest_loop wx wy tol rest (Some asteroid) (Some ?d)"
      by (simp add: hit_def Let_def)
    have ih: "(closest_loop wx wy tol rest (Some asteroid) (Some ?d) = None \<longleftrightarrow>
            Some asteroid = None \<and> (\<forall>c \<in> set rest. \<not> hit wx wy tol c)) \<and>
         (\<forall>a. closest_loop wx wy tol rest (Some asteroid) (Some ?d) = Some a \<longrightarrow>
            (Some a = Some asteroid \<or> a \<in> set rest \<and> hit wx wy tol a) \<and>
            (\<forall>c \<in> set rest. hit wx wy tol c \<longrightarrow> pick_dist wx wy a \<le> pick_dist wx wy c) \<and>
            (\<forall>c. Some asteroid = Some c \<longrightarrow> pick_dist wx wy a \<le> pick_dist wx wy c))"
      by (rule Cons.IH) simp
    have old: "\<forall>c. closest = Some c \<longrightarrow> ?d \<le> pick_dist wx wy c"
      using True Cons.prems by (auto split: option.splits)
    show ?thesis unfolding step using ih True old by (auto intro: order_trans)
  next
    case False
    then have step: "closest_loop wx wy tol (asteroid # rest) closest closestDist =
        closest_loop wx wy tol rest closest closestDist"
      by (auto simp: hit_def Let_def)
    note ih = Cons.IH[OF Cons.prems]
    have keep: "hit wx wy tol asteroid \<longrightarrow> (\<exists>c. closest = Some c \<and> pick_dist wx wy c \<le> ?d)"
      using False Cons.prems by (auto split: option.splits)
    show ?thesis unfolding step using ih keep by (auto intro: order_trans)
  qed
qed

text \<open>The loop keeps the first of the candidates at the least distance: every candidate
  before the one returned that passes the test is strictly farther.\<close>

lemma closest_loop_first:
  assumes "closestDist = map_option (pick_dist wx wy) closest"
    and "closest_loop wx wy tol cands closest closestDist = Some a"
  shows "Some a = closest \<or>
         (\<exists>pre post. cands = pre @ a # post \<and> hit wx wy tol a \<and>
            (\<forall>c \<in> set pre. hit wx wy tol c \<longrightarrow> pick_dist wx wy a < pick_dist wx wy c) \<and>
            (\<forall>c. closest = Some c \<longrightarrow> pick_dist wx wy a < pick_dist wx wy c))"
  using assms
proof (induction cands arbitrary: closest closestDist)
  case Nil
  then show ?case by simp
next
  case (Cons asteroid rest)
  let ?d = "pick_dist wx wy asteroid"
  show ?case
  proof (cases "hit wx wy tol asteroid \<and> (case closestDist of None \<Rightarrow> True | Some d \<Rightarrow> ?d < d)")
    case True
    then have step: "closest_loop wx wy tol (asteroid # rest) closest closestDist =
        closest_loop wx wy tol rest (Some asteroid) (Some ?d)"
      by (simp add: hit_def Let_def)
    have old: "\<forall>c. closest = Some c \<longrightarrow> ?d < pick_dist wx wy c"
      using True Cons.prems(1) by (auto split: option.splits)
    from Cons.prems(2) have r: "closest_loop wx wy tol rest (Some asteroid) (Some ?d) = Some a"
      unfolding step .
    have "Some a = Some asteroid \<or>
         (\<exists>pre post. rest = pre @ a # post \<and> hit wx wy tol a \<and>
            (\<forall>c \<in> set pre. hit wx wy tol c \<longrightarrow> pick_dist wx wy a < pick_dist wx wy c) \<and>
            (\<forall>c. Some asteroid = Some c \<longrightarrow> pick_dist wx wy a < pick_dist wx wy c))"
      by (rule Cons.IH[OF _ r]) simp
    then show ?thesis
    proof
      assume "Some a = Some asteroid"
      then have a: "a = asteroid" by simp
      have "asteroid # rest = [] @ a # rest" by (simp add: a)
      moreover have "hit wx wy tol a" using True a by simp
      moreover have "\<forall>c. closest = Some c \<longrightarrow> pick_dist wx wy a < pick_dist wx wy c"
        using old a by simp
      ultimately show ?thesis by (intro disjI2 exI[of _ "[]"] exI[of _ rest]) simp
    next
      assume "\<exists>pre post. rest = pre @ a # post \<and> hit wx wy tol a \<and>
            (\<forall>c \<in> set pre. hit wx wy tol c \<longrightarrow> pick_dist wx wy a < pick_dist wx wy c) \<and>
            (\<forall>c. Some asteroid = Some c \<longrightarrow> pick_dist wx wy a < pick_dist wx wy c)"
      then obtain pre post where p: "rest = pre @ a # post" "hit wx wy tol a"
        "\<forall>c \<in> set pre. hit wx wy tol c \<longrightarrow> pick_dist wx wy a < pick_dist wx wy c"
        "pick_dist wx wy a < ?d" by auto
      have 1: "asteroid # rest = (asteroid # pre) @ a # post" using p(1) by simp
      have 2: "\<forall>c \<in> set (asteroid # pre). hit wx wy tol c \<longrightarrow> pick_dist wx wy a < pick_dist wx wy c"
        using p(3,4) by simp
      have 3: "\<forall>c. closest = Some c \<longrightarrow> pick_dist wx wy a < pick_dist wx wy c"
        using old p(4) by (auto intro: less_trans)
      from 1 p(2) 2 3 show ?thesis by blast
    qed
  next
    case False
    then have step: "closest_loop wx wy tol (asteroid # rest) closest closestDist =
        closest_loop wx wy tol rest closest closestDist"
      by (auto simp: hit_def Let_def)
    have keep: "hit wx wy tol asteroid \<longrightarrow> (\<exists>c. closest = Some c \<and> pick_dist wx wy c \<le> ?d)"
      using False Cons.prems(1) by (auto split: option.splits)
    from Cons.prems(2) have r: "closest_loop wx wy tol rest closest closestDist = Some a"
      unfolding step .
    from Cons.IH[OF Cons.prems(1) r] show ?thesis
    proof
      assume "Some a = closest"
      then show ?thesis by simp
    next
      assume "\<exists>pre post. rest = pre @ a # post \<and> hit wx wy tol a \<and>
            (\<forall>c \<in> set pre. hit wx wy tol c \<longrightarrow> pick_dist wx wy a < pick_dist wx wy c) \<and>
            (\<forall>c. closest = Some c \<longrightarrow> pick_dist wx wy a < pick_dist wx wy c)"
      then obtain pre post where p: "rest = pre @ a # post" "hit wx wy tol a"
        "\<forall>c \<in> set pre. hit wx wy tol c \<longrightarrow> pick_dist wx wy a < pick_dist wx wy c"
        "\<forall>c. closest = Some c \<longrightarrow> pick_dist wx wy a < pick_dist wx wy c" by auto
      have 1: "asteroid # rest = (asteroid # pre) @ a # post" using p(1) by simp
      have "hit wx wy tol asteroid \<longrightarrow> pick_dist wx wy a < ?d"
        using keep p(4) by (auto intro: less_le_trans)
      then have 2: "\<forall>c \<in> set (asteroid # pre). hit wx wy tol c \<longrightarrow> pick_dist wx wy a < pick_dist wx wy c"
        using p(3) by simp
      from 1 p(2) 2 p(4) show ?thesis by blast
    qed
  qed
qed

lemma closest_loop_initial_first:
  assumes "closest_loop wx wy tol cands None None = Some a"
  shows "\<exists>pre post. cands = pre @ a # post \<and>
            (\<forall>c \<in> set pre. hit wx wy tol c \<longrightarrow> pick_dist wx wy a < pick_dist wx wy c)"
  using closest_loop_first[of None wx wy None tol cands a] assms by auto

section \<open>Completeness of the index\<close>

lemma fresh_insert_each:
  assumes cap: "0 < cap"
    and d: "distinct (map (\<lambda>obj. (obj_x obj, obj_y obj)) objs)"
  shows "\<exists>n. \<forall>m \<ge> n. \<exists>t. insert_each m (new_QuadTree b cap) objs = Some t"
proof -
  from sep_exists[OF d] obtain ex ey where e: "0 < ex" "0 < ey" "sep ex ey (set objs)" by blast
  from depth_exists[OF e(1,2)] obtain k where
    k: "b_width b \<le> 2 ^ k * ex" "b_height b \<le> 2 ^ k * ey" by blast
  from d have dist: "distinct objs" by (simp add: distinct_map)
  have "\<exists>t. insert_each m (new_QuadTree b cap) objs = Some t" if m: "Suc k \<le> m" for m
  proof -
    from m obtain k' where m': "m = Suc k'" and kk: "k \<le> k'" by (cases m) auto
    have p: "(2::real) ^ k \<le> 2 ^ k'" using kk by (intro power_increasing) auto
    have w: "b_width b \<le> 2 ^ k' * ex"
      using k(1) mult_right_mono[OF p, of ex] e(1) by linarith
    have h: "b_height b \<le> 2 ^ k' * ey"
      using k(2) mult_right_mono[OF p, of ey] e(2) by linarith
    have "\<exists>t'. insert_each (Suc k') (new_QuadTree b cap) objs = Some t'"
      using w h dist by (intro insert_each_enough[OF cap e(3)]) (auto simp: new_QuadTree_def)
    then show ?thesis using m' by simp
  qed
  then show ?thesis by blast
qed

lemma query_of_built:
  assumes built: "insert_each m (new_QuadTree b cap) objs = Some t"
  shows "qt_wf t" "qt_bounds t = b"
    "mset (all_objects t) = mset (filter (\<lambda>obj. containsPoint b (obj_x obj) (obj_y obj)) objs)"
    "queryCircle t cx cy radius [] = filter (in_circle cx cy radius) (all_objects t)"
proof -
  have w0: "qt_wf (new_QuadTree b cap)" by (simp add: new_QuadTree_def)
  from insert_each_post[OF w0 built]
  show w: "qt_wf t" and "qt_bounds t = b"
    and "mset (all_objects t) = mset (filter (\<lambda>obj. containsPoint b (obj_x obj) (obj_y obj)) objs)"
    by (simp_all add: new_QuadTree_def)
  from queryCircle_filter[OF wf_contained[OF w], of cx cy radius "[]"]
  show "queryCircle t cx cy radius [] = filter (in_circle cx cy radius) (all_objects t)" by simp
qed

text \<open>
  In exact arithmetic the index is complete.  For objects with pairwise distinct positions,
  all inside the bounds of a fresh tree of capacity at least one, there is a recursion depth
  from which on inserting them all returns, with every object held exactly once; a query
  with a circle that covers the bounds then returns exactly these objects, each once, and a
  query with a circle that contains none of their positions returns nothing.  The sums
  \<open>x + w\<close> and \<open>y + h\<close> of \<open>subdivide\<close> are exact here.  The program rounds them, and where the
  rounded children no longer cover their parent it drops objects: this statement is about
  the algorithm, not about the program on positions a few units in the last place apart.
\<close>

lemma exact_arithmetic_completeness:
  assumes cap: "0 < cap"
    and d: "distinct (map (\<lambda>obj. (obj_x obj, obj_y obj)) objs)"
    and inside: "\<forall>obj \<in> set objs. containsPoint b (obj_x obj) (obj_y obj)"
  shows "\<exists>n. \<forall>m \<ge> n. \<exists>t.
           insert_each m (new_QuadTree b cap) objs = Some t \<and>
           mset (all_objects t) = mset objs \<and>
           (\<forall>cx cy radius.
              ((\<forall>px py. containsPoint b px py \<longrightarrow>
                  (px - cx) * (px - cx) + (py - cy) * (py - cy) \<le> radius * radius) \<longrightarrow>
               mset (queryCircle t cx cy radius []) = mset objs \<and>
               distinct (queryCircle t cx cy radius [])) \<and>
              ((\<forall>obj \<in> set objs. \<not> in_circle cx cy radius obj) \<longrightarrow>
               queryCircle t cx cy radius [] = []))"
proof -
  from fresh_insert_each[OF cap d, of b] obtain n where
    n: "\<forall>m \<ge> n. \<exists>t. insert_each m (new_QuadTree b cap) objs = Some t" by blast
  have "\<exists>t. insert_each m (new_QuadTree b cap) objs = Some t \<and>
           mset (all_objects t) = mset objs \<and>
           (\<forall>cx cy radius.
              ((\<forall>px py. containsPoint b px py \<longrightarrow>
                  (px - cx) * (px - cx) + (py - cy) * (py - cy) \<le> radius * radius) \<longrightarrow>
               mset (queryCircle t cx cy radius []) = mset objs \<and>
               distinct (queryCircle t cx cy radius [])) \<and>
              ((\<forall>obj \<in> set objs. \<not> in_circle cx cy radius obj) \<longrightarrow>
               queryCircle t cx cy radius [] = []))" if "n \<le> m" for m
  proof -
    from n that obtain t where built: "insert_each m (new_QuadTree b cap) objs = Some t" by blast
    note q = query_of_built[OF built]
    from inside have "filter (\<lambda>obj. containsPoint b (obj_x obj) (obj_y obj)) objs = objs"
      by (simp add: filter_id_conv)
    with q(3) have all: "mset (all_objects t) = mset objs" by simp
    then have sets: "set (all_objects t) = set objs" by (rule mset_eq_setD)
    from d have "distinct objs" by (simp add: distinct_map)
    with all have dist: "distinct (all_objects t)" by (metis mset_eq_imp_distinct_iff)
    have cover: "mset (queryCircle t cx cy radius []) = mset objs \<and>
               distinct (queryCircle t cx cy radius [])"
      if c: "\<forall>px py. containsPoint b px py \<longrightarrow>
                  (px - cx) * (px - cx) + (py - cy) * (py - cy) \<le> radius * radius"
      for cx cy radius
    proof -
      have "in_circle cx cy radius obj" if "obj \<in> set (all_objects t)" for obj
        using that sets inside c by (simp add: in_circle_def Let_def)
      then have "filter (in_circle cx cy radius) (all_objects t) = all_objects t"
        by (simp add: filter_id_conv)
      then show ?thesis using q(4)[of cx cy radius] all dist by simp
    qed
    have none: "queryCircle t cx cy radius [] = []"
      if "\<forall>obj \<in> set objs. \<not> in_circle cx cy radius obj" for cx cy radius
      using that sets q(4)[of cx cy radius] by (simp add: filter_empty_conv)
    show ?thesis using built all cover none by blast
  qed
  then show ?thesis by blast
qed

section \<open>Picking the nearest body\<close>

lemma hit_within_margin:
  assumes h: "hit wx wy tol a" and r: "obj_radius a \<le> 50"
  shows "in_circle wx wy (tol + 50) a"
proof -
  let ?s = "(wx - obj_x a) * (wx - obj_x a) + (wy - obj_y a) * (wy - obj_y a)"
  have s0: "0 \<le> ?s" by simp
  from h r have le: "sqrt ?s \<le> tol + 50" by (simp add: hit_def pick_dist_def Let_def)
  have p: "0 \<le> sqrt ?s" using s0 by simp
  with le have "0 \<le> tol + 50" by linarith
  with le p have "sqrt ?s * sqrt ?s \<le> (tol + 50) * (tol + 50)" by (intro mult_mono)
  then have "?s \<le> (tol + 50) * (tol + 50)" using s0 by simp
  moreover have "(obj_x a - wx) * (obj_x a - wx) + (obj_y a - wy) * (obj_y a - wy) = ?s"
    by (simp add: algebra_simps)
  ultimately show ?thesis by (simp add: in_circle_def Let_def)
qed

lemma closest_loop_initial:
  "(closest_loop wx wy tol cands None None = None \<longleftrightarrow>
      (\<forall>c \<in> set cands. \<not> hit wx wy tol c)) \<and>
   (\<forall>a. closest_loop wx wy tol cands None None = Some a \<longrightarrow>
      (a \<in> set cands \<and> hit wx wy tol a) \<and>
      (\<forall>c \<in> set cands. hit wx wy tol c \<longrightarrow> pick_dist wx wy a \<le> pick_dist wx wy c))"
  using closest_loop_spec[of None wx wy None tol cands] by simp

text \<open>Every tree that \<open>rebuildQuadtree\<close> returns holds its objects inside the bounds of
  the nodes above them: \<open>insert\<close> stores an object only in a node that contains it.\<close>

lemma rebuildQuadtree_contained:
  assumes "rebuildQuadtree n asteroids wb = Some t"
  shows "contained t"
proof -
  from assms have "insert_each n
      (new_QuadTree \<lparr>b_x = minX wb, b_y = minY wb, b_width = wb_width wb,
                      b_height = wb_height wb\<rparr> 8) asteroids = Some t"
    by (simp add: rebuildQuadtree_def)
  from wf_contained[OF query_of_built(1)[OF this]] show ?thesis .
qed

text \<open>
  Claim C9, as amended.  On a tree whose nodes hold only objects inside their bounds, as
  every tree made by \<open>insert\<close> is, the candidates of \<open>findAsteroidAt\<close> are the indexed
  bodies whose centre is within \<open>tolerance + 50\<close> of the query point, in the order in which
  a query visits the nodes.  \<open>findAsteroidAt\<close> returns \<open>null\<close> exactly when no candidate has a
  centre distance of at most \<open>radius + tolerance\<close>; otherwise it returns such a candidate at
  minimum distance, and of several at that distance the first: every candidate before it
  that passes the test is strictly farther.  When every indexed body has a radius of at
  most \<open>50\<close>, the candidates that pass the test are all the indexed bodies with centre
  distance at most \<open>radius + tolerance\<close>.
\<close>

theorem findAsteroidAt_nearest_candidate:
  assumes c: "contained t"
  shows "queryCircle t wx wy (tol + 50) [] = filter (in_circle wx wy (tol + 50)) (all_objects t) \<and>
         (findAsteroidAt (Some t) wx wy tol = None \<longleftrightarrow>
            (\<forall>a \<in> set (all_objects t).
               \<not> (in_circle wx wy (tol + 50) a \<and> hit wx wy tol a))) \<and>
         (\<forall>a. findAsteroidAt (Some t) wx wy tol = Some a \<longrightarrow>
            a \<in> set (all_objects t) \<and> in_circle wx wy (tol + 50) a \<and> hit wx wy tol a \<and>
            (\<forall>c \<in> set (all_objects t).
               in_circle wx wy (tol + 50) c \<and> hit wx wy tol c \<longrightarrow>
               pick_dist wx wy a \<le> pick_dist wx wy c) \<and>
            (\<exists>pre post. queryCircle t wx wy (tol + 50) [] = pre @ a # post \<and>
               (\<forall>c \<in> set pre. hit wx wy tol c \<longrightarrow> pick_dist wx wy a < pick_dist wx wy c))) \<and>
         ((\<forall>a \<in> set (all_objects t). obj_radius a \<le> 50) \<longrightarrow>
            (\<forall>a \<in> set (all_objects t). hit wx wy tol a \<longrightarrow> in_circle wx wy (tol + 50) a))"
proof -
  let ?cands = "filter (in_circle wx wy (tol + 50)) (all_objects t)"
  have q: "queryCircle t wx wy (tol + 50) [] = ?cands"
    using queryCircle_filter[OF c, of wx wy "tol + 50" "[]"] by simp
  have f: "findAsteroidAt (Some t) wx wy tol = closest_loop wx wy tol ?cands None None"
    by (simp add: findAsteroidAt_def Let_def q)
  have cl: "(closest_loop wx wy tol ?cands None None = None \<longleftrightarrow>
            (\<forall>c \<in> set ?cands. \<not> hit wx wy tol c)) \<and>
         (\<forall>a. closest_loop wx wy tol ?cands None None = Some a \<longrightarrow>
            (a \<in> set ?cands \<and> hit wx wy tol a) \<and>
            (\<forall>c \<in> set ?cands. hit wx wy tol c \<longrightarrow> pick_dist wx wy a \<le> pick_dist wx wy c))"
    by (rule closest_loop_initial)
  have sc: "\<And>c. c \<in> set ?cands \<longleftrightarrow> c \<in> set (all_objects t) \<and> in_circle wx wy (tol + 50) c"
    by simp
  have 1: "findAsteroidAt (Some t) wx wy tol = None \<longleftrightarrow>
            (\<forall>a \<in> set (all_objects t).
               \<not> (in_circle wx wy (tol + 50) a \<and> hit wx wy tol a))"
    unfolding f using conjunct1[OF cl] sc by blast
  have 2: "\<forall>a. findAsteroidAt (Some t) wx wy tol = Some a \<longrightarrow>
            a \<in> set (all_objects t) \<and> in_circle wx wy (tol + 50) a \<and> hit wx wy tol a \<and>
            (\<forall>c \<in> set (all_objects t).
               in_circle wx wy (tol + 50) c \<and> hit wx wy tol c \<longrightarrow>
               pick_dist wx wy a \<le> pick_dist wx wy c)"
    unfolding f using conjunct2[OF cl] sc by blast
  have 3: "\<forall>a. findAsteroidAt (Some t) wx wy tol = Some a \<longrightarrow>
            (\<exists>pre post. queryCircle t wx wy (tol + 50) [] = pre @ a # post \<and>
               (\<forall>c \<in> set pre. hit wx wy tol c \<longrightarrow> pick_dist wx wy a < pick_dist wx wy c))"
    unfolding f q using closest_loop_initial_first by blast
  have 4: "(\<forall>a \<in> set (all_objects t). obj_radius a \<le> 50) \<longrightarrow>
            (\<forall>a \<in> set (all_objects t). hit wx wy tol a \<longrightarrow> in_circle wx wy (tol + 50) a)"
    using hit_within_margin by blast
  from q 1 2 3 4 show ?thesis by blast
qed

text \<open>The amended claim C9 on two bodies of radius 20 at the same distance from a query at
  the origin: the one that the query finds first is returned.\<close>

theorem findAsteroidAt_nearest_candidate_witness:
  "rebuildQuadtree 1
     [\<lparr>obj_id = 0, obj_x = 0, obj_y = 10, obj_radius = 20\<rparr>,
      \<lparr>obj_id = 1, obj_x = 10, obj_y = 0, obj_radius = 20\<rparr>]
     \<lparr>minX = - 1050, minY = - 1050, wb_width = 2100, wb_height = 2100\<rparr> =
   Some (Leaf \<lparr>b_x = - 1050, b_y = - 1050, b_width = 2100, b_height = 2100\<rparr> 8
     [\<lparr>obj_id = 0, obj_x = 0, obj_y = 10, obj_radius = 20\<rparr>,
      \<lparr>obj_id = 1, obj_x = 10, obj_y = 0, obj_radius = 20\<rparr>]) \<and>
   contained (Leaf \<lparr>b_x = - 1050, b_y = - 1050, b_width = 2100, b_height = 2100\<rparr> 8
     [\<lparr>obj_id = 0, obj_x = 0, obj_y = 10, obj_radius = 20\<rparr>,
      \<lparr>obj_id = 1, obj_x = 10, obj_y = 0, obj_radius = 20\<rparr>]) \<and>
   findAsteroidAt (Some (Leaf \<lparr>b_x = - 1050, b_y = - 1050, b_width = 2100, b_height = 2100\<rparr> 8
     [\<lparr>obj_id = 0, obj_x = 0, obj_y = 10, obj_radius = 20\<rparr>,
      \<lparr>obj_id = 1, obj_x = 10, obj_y = 0, obj_radius = 20\<rparr>])) 0 0 10 =
     Some \<lparr>obj_id = 0, obj_x = 0, obj_y = 10, obj_radius = 20\<rparr>"
proof -
  let ?a = "\<lparr>obj_id = 0, obj_x = 0, obj_y = 10, obj_radius = 20\<rparr>"
  let ?c = "\<lparr>obj_id = 1, obj_x = 10, obj_y = 0, obj_radius = 20\<rparr>"
  let ?wb = "\<lparr>minX = - 1050, minY = - 1050, wb_width = 2100, wb_height = 2100\<rparr>"
  let ?t = "Leaf \<lparr>b_x = - 1050, b_y = - 1050, b_width = 2100, b_height = 2100\<rparr> 8 [?a, ?c]"
  have built: "rebuildQuadtree 1 [?a, ?c] ?wb = Some ?t"
    by (simp add: rebuildQuadtree_def new_QuadTree_def containsPoint_def)
  have ct: "contained ?t" by (simp add: containsPoint_def)
  have s: "sqrt (100::real) = 10" by (rule real_sqrt_unique) simp_all
  have da: "pick_dist 0 0 ?a = 10" and dc: "pick_dist 0 0 ?c = 10"
    by (simp_all add: pick_dist_def s)
  have ha: "hit 0 0 10 ?a" by (simp add: hit_def da)
  have ia: "in_circle 0 0 (10 + 50) ?a" by (simp add: in_circle_def)
  note nc = findAsteroidAt_nearest_candidate[OF ct, of 0 0 10]
  from nc ha ia have "findAsteroidAt (Some ?t) 0 0 10 \<noteq> None" by auto
  then obtain x where x: "findAsteroidAt (Some ?t) 0 0 10 = Some x" by blast
  from nc x obtain pre post where
    q: "queryCircle ?t 0 0 (10 + 50) [] = pre @ x # post"
    and f: "\<forall>c \<in> set pre. hit 0 0 10 c \<longrightarrow> pick_dist 0 0 x < pick_dist 0 0 c"
    by blast
  from nc x have xin: "x \<in> set (all_objects ?t)" by blast
  have qc: "queryCircle ?t 0 0 (10 + 50) [] = [?a, ?c]"
    by (simp add: intersectsCircle_def in_circle_def)
  have "x = ?a"
  proof (rule ccontr)
    assume n: "x \<noteq> ?a"
    with xin have xc: "x = ?c" by simp
    from q qc xc have "[?a, ?c] = pre @ ?c # post" by simp
    then have "pre = [?a]" by (cases pre; cases "tl pre") auto
    with f ha have "pick_dist 0 0 x < pick_dist 0 0 ?a" by simp
    with xc da dc show False by simp
  qed
  with built ct x show ?thesis by simp
qed

text \<open>
  Claim C9 fails as it is stated: a body of radius \<open>200\<close> centred at \<open>(100, 0)\<close> is
  indexed, and its centre distance \<open>100\<close> from the query point \<open>(0, 0)\<close> is at most
  \<open>radius + tolerance\<close> for the tolerance \<open>0\<close>, but it is not within \<open>50\<close> of the query
  point, and \<open>findAsteroidAt\<close> returns \<open>null\<close>.
\<close>

theorem findAsteroidAt_misses_large_body:
  "rebuildQuadtree 1 [\<lparr>obj_id = 0, obj_x = 100, obj_y = 0, obj_radius = 200\<rparr>]
     \<lparr>minX = - 1050, minY = - 1050, wb_width = 2100, wb_height = 2100\<rparr> =
   Some (Leaf \<lparr>b_x = - 1050, b_y = - 1050, b_width = 2100, b_height = 2100\<rparr> 8
     [\<lparr>obj_id = 0, obj_x = 100, obj_y = 0, obj_radius = 200\<rparr>]) \<and>
   pick_dist 0 0 \<lparr>obj_id = 0, obj_x = 100, obj_y = 0, obj_radius = 200\<rparr>
     \<le> obj_radius \<lparr>obj_id = 0, obj_x = 100, obj_y = 0, obj_radius = 200\<rparr> + 0 \<and>
   findAsteroidAt
     (rebuildQuadtree 1 [\<lparr>obj_id = 0, obj_x = 100, obj_y = 0, obj_radius = 200\<rparr>]
        \<lparr>minX = - 1050, minY = - 1050, wb_width = 2100, wb_height = 2100\<rparr>) 0 0 0 = None"
proof -
  have s: "sqrt (10000::real) = 100" by (rule real_sqrt_unique) simp_all
  show ?thesis
    by (simp add: rebuildQuadtree_def new_QuadTree_def containsPoint_def findAsteroidAt_def
        intersectsCircle_def in_circle_def pick_dist_def s)
qed

section \<open>Half-open containment\<close>

text \<open>
  Claim C10.  Containment is half-open.  For an object whose position has
  \<open>x = bounds.x + bounds.width\<close> or \<open>y = bounds.y + bounds.height\<close>, the node does not
  contain the point, and \<open>insert\<close> returns \<open>false\<close> and leaves the tree as it was, so the
  object is held nowhere and no query returns it.  A point on the left edge or on the
  top edge of a node (with the other coordinate in range) is contained.
\<close>

theorem insert_rejects_max_boundary:
  "(obj_x obj = b_x (qt_bounds t) + b_width (qt_bounds t) \<or>
    obj_y obj = b_y (qt_bounds t) + b_height (qt_bounds t) \<longrightarrow>
      \<not> containsPoint (qt_bounds t) (obj_x obj) (obj_y obj) \<and>
      qt_insert (Suc n) t obj = Some (t, False)) \<and>
   (0 < b_width b \<and> b_y b \<le> py \<and> py < b_y b + b_height b \<longrightarrow> containsPoint b (b_x b) py) \<and>
   (0 < b_height b \<and> b_x b \<le> px \<and> px < b_x b + b_width b \<longrightarrow> containsPoint b px (b_y b))"
  by (auto simp: containsPoint_def)

text \<open>Claim C10 on an object at the right edge of a tree over \<open>[0, 4) x [0, 4)\<close>.\<close>

theorem insert_rejects_max_boundary_witness:
  "obj_x \<lparr>obj_id = 0, obj_x = 4, obj_y = 1, obj_radius = 1\<rparr> =
     b_x (qt_bounds (new_QuadTree \<lparr>b_x = 0, b_y = 0, b_width = 4, b_height = 4\<rparr> 4)) +
     b_width (qt_bounds (new_QuadTree \<lparr>b_x = 0, b_y = 0, b_width = 4, b_height = 4\<rparr> 4)) \<and>
   qt_insert (Suc 0) (new_QuadTree \<lparr>b_x = 0, b_y = 0, b_width = 4, b_height = 4\<rparr> 4)
     \<lparr>obj_id = 0, obj_x = 4, obj_y = 1, obj_radius = 1\<rparr> =
     Some (new_QuadTree \<lparr>b_x = 0, b_y = 0, b_width = 4, b_height = 4\<rparr> 4, False) \<and>
   containsPoint \<lparr>b_x = 0, b_y = 0, b_width = 4, b_height = 4\<rparr> 0 1 \<and>
   containsPoint \<lparr>b_x = 0, b_y = 0, b_width = 4, b_height = 4\<rparr> 1 0"
  using insert_rejects_max_boundary
    [of "\<lparr>obj_id = 0, obj_x = 4, obj_y = 1, obj_radius = 1\<rparr>"
        "new_QuadTree \<lparr>b_x = 0, b_y = 0, b_width = 4, b_height = 4\<rparr> 4" 0
        "\<lparr>b_x = 0, b_y = 0, b_width = 4, b_height = 4\<rparr>" 1 1]
  by (simp add: new_QuadTree_def)

end
